theory Spec2Isabelle
  imports Complex_Main "HOL-Library.Log_Nat"
begin

section \<open>JavaScript numbers\<close>

text \<open>
  The import route computes with JavaScript numbers (IEEE 754 binary64).  A number is
  \<open>NaN\<close>, one of the two infinities, or a finite value, kept as the exact rational it
  denotes.  Every arithmetic result is rounded to the nearest binary64 value, ties to the
  even significand, by \<open>fl\<close>.  Negative zero is identified with zero: the route only
  compares, multiplies, adds and prints numbers, and never divides by a computed zero.
\<close>

datatype jsnum = NaN | PInf | NInf | Fin rat

definition pow2 :: "int \<Rightarrow> rat" where
  "pow2 e = (if 0 \<le> e then 2 ^ nat e else 1 / 2 ^ nat (- e))"

definition pow10 :: "int \<Rightarrow> rat" where
  "pow10 e = (if 0 \<le> e then 10 ^ nat e else 1 / 10 ^ nat (- e))"

definition ilog2 :: "rat \<Rightarrow> int" where
  \<comment> \<open>\<open>\<lfloor>log\<^sub>2 a\<rfloor>\<close> for \<open>a > 0\<close>, from the bit lengths of numerator and denominator\<close>
  "ilog2 a = (case quotient_of a of (p, q) \<Rightarrow>
     (let d = bitlen p - bitlen q
      in if pow2 d \<le> a then d else d - 1))"

definition round_even :: "rat \<Rightarrow> int" where
  "round_even x = (let f = \<lfloor>x\<rfloor>; d = x - of_int f
     in if d < 1/2 then f else if 1/2 < d then f + 1 else if even f then f else f + 1)"

definition fl :: "rat \<Rightarrow> jsnum" where
  \<comment> \<open>round to binary64: 53 significant bits, exponent at least \<open>-1022\<close> (below that the
      spacing stays \<open>2^-1074\<close>), infinity from \<open>2^1024\<close> on\<close>
  "fl q = (if q = 0 then Fin 0 else
     (let a = \<bar>q\<bar>;
          e = max (ilog2 a) (- 1022);
          n = round_even (a / pow2 (e - 52))
      in if 1023 < e \<or> (e = 1023 \<and> 9007199254740992 \<le> n)
         then (if 0 < q then PInf else NInf)
         else Fin ((if 0 < q then 1 else - 1) * of_int n * pow2 (e - 52))))"

fun fadd :: "jsnum \<Rightarrow> jsnum \<Rightarrow> jsnum" where
  "fadd NaN _ = NaN"
| "fadd _ NaN = NaN"
| "fadd PInf NInf = NaN"
| "fadd NInf PInf = NaN"
| "fadd PInf _ = PInf"
| "fadd NInf _ = NInf"
| "fadd _ PInf = PInf"
| "fadd _ NInf = NInf"
| "fadd (Fin a) (Fin b) = fl (a + b)"

fun fneg :: "jsnum \<Rightarrow> jsnum" where
  "fneg NaN = NaN"
| "fneg PInf = NInf"
| "fneg NInf = PInf"
| "fneg (Fin a) = Fin (- a)"

definition inf_of_sign :: "bool \<Rightarrow> jsnum" where
  "inf_of_sign pos = (if pos then PInf else NInf)"

fun fmul :: "jsnum \<Rightarrow> jsnum \<Rightarrow> jsnum" where
  "fmul NaN _ = NaN"
| "fmul _ NaN = NaN"
| "fmul (Fin a) (Fin b) = fl (a * b)"
| "fmul (Fin a) PInf = (if a = 0 then NaN else inf_of_sign (0 < a))"
| "fmul (Fin a) NInf = (if a = 0 then NaN else inf_of_sign (a < 0))"
| "fmul PInf (Fin b) = (if b = 0 then NaN else inf_of_sign (0 < b))"
| "fmul NInf (Fin b) = (if b = 0 then NaN else inf_of_sign (b < 0))"
| "fmul PInf PInf = PInf"
| "fmul NInf NInf = PInf"
| "fmul PInf NInf = NInf"
| "fmul NInf PInf = NInf"

fun fdiv :: "jsnum \<Rightarrow> jsnum \<Rightarrow> jsnum" where
  \<comment> \<open>a zero divisor is taken as \<open>+0\<close>; the route divides by the literal 100 only\<close>
  "fdiv NaN _ = NaN"
| "fdiv _ NaN = NaN"
| "fdiv (Fin a) (Fin b) =
     (if b = 0 then (if a = 0 then NaN else inf_of_sign (0 < a)) else fl (a / b))"
| "fdiv (Fin a) _ = Fin 0"
| "fdiv PInf (Fin b) = inf_of_sign (0 \<le> b)"
| "fdiv NInf (Fin b) = inf_of_sign (b < 0)"
| "fdiv _ _ = NaN"

fun fle :: "jsnum \<Rightarrow> jsnum \<Rightarrow> bool" where
  \<comment> \<open>\<open>a <= b\<close>; every comparison with \<open>NaN\<close> is false\<close>
  "fle NaN _ = False"
| "fle _ NaN = False"
| "fle NInf _ = True"
| "fle _ PInf = True"
| "fle PInf _ = False"
| "fle _ NInf = False"
| "fle (Fin a) (Fin b) = (a \<le> b)"

definition fge :: "jsnum \<Rightarrow> jsnum \<Rightarrow> bool" where
  "fge a b = fle b a"

definition feq :: "jsnum \<Rightarrow> jsnum \<Rightarrow> bool" where
  \<comment> \<open>\<open>a === b\<close> on numbers: \<open>NaN\<close> equals nothing, itself included\<close>
  "feq a b = (a \<noteq> NaN \<and> a = b)"

definition fgt :: "jsnum \<Rightarrow> jsnum \<Rightarrow> bool" where
  "fgt a b = (fle b a \<and> \<not> feq a b)"

section \<open>Strings\<close>

text \<open>
  A string is a list of characters with codes below 256 (the Latin-1 range of a
  JavaScript string); \<open>toLowerCase\<close> and \<open>trim\<close> are modelled on that range.
\<close>

definition is_ws :: "char \<Rightarrow> bool" where
  "is_ws c = (of_char c \<in> {9, 10, 11, 12, 13, 32, 160 :: nat})"

definition trimStart :: "string \<Rightarrow> string" where
  "trimStart s = dropWhile is_ws s"

definition trim :: "string \<Rightarrow> string" where
  "trim s = rev (dropWhile is_ws (rev (dropWhile is_ws s)))"

definition lower_char :: "char \<Rightarrow> char" where
  "lower_char c = (let n = of_char c :: nat
     in if (65 \<le> n \<and> n \<le> 90) \<or> (192 \<le> n \<and> n \<le> 222 \<and> n \<noteq> 215)
        then char_of (n + 32) else c)"

definition toLowerCase :: "string \<Rightarrow> string" where
  "toLowerCase s = map lower_char s"

definition startsWith :: "string \<Rightarrow> string \<Rightarrow> bool" where
  "startsWith s p = (take (length p) s = p)"

definition endsWith :: "string \<Rightarrow> string \<Rightarrow> bool" where
  "endsWith s p = (length p \<le> length s \<and> drop (length s - length p) s = p)"

fun str_includes :: "string \<Rightarrow> string \<Rightarrow> bool" where
  "str_includes [] p = (p = [])"
| "str_includes (c # s) p = (startsWith (c # s) p \<or> str_includes s p)"

fun split_go :: "string \<Rightarrow> nat \<Rightarrow> string \<Rightarrow> string \<Rightarrow> string list" where
  \<comment> \<open>\<open>skip\<close> characters of a separator just matched remain to be dropped;
      \<open>acc\<close> is the current piece, reversed\<close>
  "split_go sep skip acc [] = [rev acc]"
| "split_go sep (Suc k) acc (c # s) = split_go sep k acc s"
| "split_go sep 0 acc (c # s) =
     (if sep \<noteq> [] \<and> startsWith (c # s) sep
      then rev acc # split_go sep (length sep - 1) [] s
      else split_go sep 0 (c # acc) s)"

definition js_split :: "string \<Rightarrow> string \<Rightarrow> string list" where
  \<comment> \<open>\<open>s.split(sep)\<close> for a non-empty separator\<close>
  "js_split s sep = split_go sep 0 [] s"

definition join_with :: "string \<Rightarrow> string list \<Rightarrow> string" where
  "join_with sep xs = (case xs of [] \<Rightarrow> [] | y # ys \<Rightarrow> foldl (\<lambda>a b. a @ sep @ b) y ys)"

section \<open>Numbers and strings\<close>

definition is_digit :: "char \<Rightarrow> bool" where
  "is_digit c = (48 \<le> (of_char c :: nat) \<and> (of_char c :: nat) \<le> 57)"

definition digit_val :: "char \<Rightarrow> int" where
  \<comment> \<open>value of a digit in a radix up to 16\<close>
  "digit_val c = (let n = int (of_char c :: nat)
     in if 48 \<le> n \<and> n \<le> 57 then n - 48
        else if 97 \<le> n \<and> n \<le> 102 then n - 87
        else if 65 \<le> n \<and> n \<le> 70 then n - 55 else 16)"

definition digits_val :: "int \<Rightarrow> string \<Rightarrow> int" where
  "digits_val radix s = foldl (\<lambda>a c. a * radix + digit_val c) 0 s"

definition scan_exponent :: "string \<Rightarrow> int \<times> string" where
  \<comment> \<open>an exponent part is read only when it is complete: \<open>e\<close>, an optional sign, a digit\<close>
  "scan_exponent s = (case s of
       [] \<Rightarrow> (0, s)
     | c # t \<Rightarrow>
        (if c = CHR ''e'' \<or> c = CHR ''E'' then
           (let neg = (t \<noteq> [] \<and> hd t = CHR ''-'');
                u = (if t \<noteq> [] \<and> (hd t = CHR ''-'' \<or> hd t = CHR ''+'') then tl t else t);
                ds = takeWhile is_digit u
            in if ds = [] then (0, s)
               else ((if neg then - digits_val 10 ds else digits_val 10 ds), dropWhile is_digit u))
         else (0, s)))"

definition scan_unsigned :: "string \<Rightarrow> (jsnum \<times> string) option" where
  \<comment> \<open>the longest prefix that is an unsigned decimal literal, and what follows it\<close>
  "scan_unsigned s =
     (if startsWith s ''Infinity'' then Some (PInf, drop 8 s)
      else
        (let ip = takeWhile is_digit s;
             r1 = dropWhile is_digit s;
             dot = (r1 \<noteq> [] \<and> hd r1 = CHR ''.'');
             fp = (if dot then takeWhile is_digit (tl r1) else []);
             r2 = (if dot then dropWhile is_digit (tl r1) else r1)
         in if ip = [] \<and> fp = [] then None
            else (case scan_exponent r2 of (ex, r3) \<Rightarrow>
              Some (fl (of_int (digits_val 10 (ip @ fp)) * pow10 (ex - int (length fp))), r3))))"

definition scan_signed :: "string \<Rightarrow> (jsnum \<times> string) option" where
  "scan_signed s = (case s of
       [] \<Rightarrow> None
     | c # t \<Rightarrow>
        (if c = CHR ''-'' then map_option (\<lambda>(v, r). (fneg v, r)) (scan_unsigned t)
         else if c = CHR ''+'' then scan_unsigned t
         else scan_unsigned s))"

definition parseFloat_str :: "string \<Rightarrow> jsnum" where
  \<comment> \<open>\<open>parseFloat\<close> of a string: leading white space dropped, then the longest numeric
      prefix; \<open>NaN\<close> when there is none\<close>
  "parseFloat_str s = (case scan_signed (trimStart s) of None \<Rightarrow> NaN | Some (v, _) \<Rightarrow> v)"

definition radix_literal :: "int \<Rightarrow> string \<Rightarrow> jsnum" where
  "radix_literal radix ds =
     (if ds \<noteq> [] \<and> list_all (\<lambda>c. digit_val c < radix) ds
      then fl (of_int (digits_val radix ds)) else NaN)"

definition Number_str :: "string \<Rightarrow> jsnum" where
  \<comment> \<open>\<open>Number\<close> of a string: white space trimmed, empty is 0, otherwise the whole
      string must be a numeric literal\<close>
  "Number_str s0 = (let s = trim s0 in
     if s = [] then Fin 0
     else if startsWith s ''0x'' \<or> startsWith s ''0X'' then radix_literal 16 (drop 2 s)
     else if startsWith s ''0o'' \<or> startsWith s ''0O'' then radix_literal 8 (drop 2 s)
     else if startsWith s ''0b'' \<or> startsWith s ''0B'' then radix_literal 2 (drop 2 s)
     else (case scan_signed s of Some (v, []) \<Rightarrow> v | _ \<Rightarrow> NaN))"

function show_int :: "int \<Rightarrow> string" where
  "show_int n = (if n < 10 then [char_of (48 + nat n)]
                 else show_int (n div 10) @ [char_of (48 + nat (n mod 10))])"
  by pat_completeness auto
termination by (relation "measure nat") auto

definition ilog10 :: "rat \<Rightarrow> int" where
  \<comment> \<open>\<open>\<lfloor>log\<^sub>1\<^sub>0 x\<rfloor>\<close> for \<open>x > 0\<close> in the binary64 range: an estimate from \<open>ilog2\<close>, corrected\<close>
  "ilog10 x = (let g = (ilog2 x * 30103) div 100000;
                   g1 = (if x < pow10 g then g - 1 else g)
               in if pow10 (g1 + 1) \<le> x then g1 + 1 else g1)"

definition digits_try :: "rat \<Rightarrow> int \<Rightarrow> int \<Rightarrow> (int \<times> int) option" where
  \<comment> \<open>a \<open>k\<close>-digit integer \<open>s\<close> with \<open>s * 10^(n - k)\<close> rounding to \<open>x\<close>, the closest if two\<close>
  "digits_try x n k =
     (let e = n - k;
          lo = \<lfloor>x / pow10 e\<rfloor>;
          ok = (\<lambda>s. fl (of_int s * pow10 e) = Fin x);
          dlo = x - of_int lo * pow10 e;
          dhi = of_int (lo + 1) * pow10 e - x;
          pick = (if ok lo \<and> ok (lo + 1)
                  then (if dlo < dhi \<or> (dlo = dhi \<and> even lo) then Some lo else Some (lo + 1))
                  else if ok lo then Some lo else if ok (lo + 1) then Some (lo + 1) else None)
      in map_option (\<lambda>s. if s = 10 ^ nat k then (s div 10, n + 1) else (s, n)) pick)"

fun digits_search :: "rat \<Rightarrow> int \<Rightarrow> int list \<Rightarrow> int \<times> int" where
  "digits_search x n [] = (\<lfloor>x / pow10 (n - 17)\<rfloor>, n)"
| "digits_search x n (k # ks) =
     (case digits_try x n k of Some r \<Rightarrow> r | None \<Rightarrow> digits_search x n ks)"

definition shortest_digits :: "rat \<Rightarrow> string \<times> int" where
  \<comment> \<open>the digits and the decimal exponent \<open>n\<close> of \<open>Number::toString\<close>: the fewest digits
      (17 always suffice) that read back as \<open>x\<close>\<close>
  "shortest_digits x =
     (case digits_search x (ilog10 x + 1)
             [1, 2, 3, 4, 5, 6, 7, 8, 9, 10, 11, 12, 13, 14, 15, 16, 17] of
        (s, m) \<Rightarrow> (show_int s, m))"

definition format_digits :: "string \<Rightarrow> int \<Rightarrow> string" where
  "format_digits ds n =
     (let k = int (length ds) in
      if k \<le> n \<and> n \<le> 21 then ds @ replicate (nat (n - k)) CHR ''0''
      else if 0 < n \<and> n \<le> 21 then take (nat n) ds @ ''.'' @ drop (nat n) ds
      else if - 6 < n \<and> n \<le> 0 then ''0.'' @ replicate (nat (- n)) CHR ''0'' @ ds
      else (if k = 1 then ds else [hd ds] @ ''.'' @ tl ds)
           @ ''e'' @ (if n - 1 < 0 then ''-'' else ''+'') @ show_int \<bar>n - 1\<bar>)"

definition numToStr :: "jsnum \<Rightarrow> string" where
  \<comment> \<open>\<open>String(x)\<close> and \<open>x.toString()\<close> of a number\<close>
  "numToStr x = (case x of
       NaN \<Rightarrow> ''NaN'' | PInf \<Rightarrow> ''Infinity'' | NInf \<Rightarrow> ''-Infinity''
     | Fin q \<Rightarrow>
        (if q = 0 then ''0''
         else (case shortest_digits \<bar>q\<bar> of (ds, n) \<Rightarrow>
                 (if q < 0 then ''-'' else []) @ format_digits ds n)))"

definition toFixed2 :: "jsnum \<Rightarrow> string" where
  \<comment> \<open>\<open>x.toFixed(2)\<close>: the integer \<open>n\<close> with \<open>n / 100\<close> nearest to \<open>x\<close>, the larger of two,
      printed with two fraction digits\<close>
  "toFixed2 x = (case x of
       NaN \<Rightarrow> ''NaN'' | PInf \<Rightarrow> ''Infinity'' | NInf \<Rightarrow> ''-Infinity''
     | Fin q \<Rightarrow>
        (let a = \<bar>q\<bar> in
         if 10 ^ 21 \<le> a then numToStr x
         else
           (let n = \<lfloor>a * 100 + 1 / 2\<rfloor>;
                ds = show_int n;
                ds3 = replicate (3 - length ds) CHR ''0'' @ ds
            in (if q < 0 then ''-'' else [])
               @ take (length ds3 - 2) ds3 @ ''.'' @ drop (length ds3 - 2) ds3)))"

section \<open>JavaScript values\<close>

text \<open>
  The route is written over untyped values (\<open>any\<close>) that come out of \<open>JSON.parse\<close>:
  products, CSV rows, API items, conditions and configurations are plain objects.  An
  object is the list of its own properties, in the order JavaScript enumerates them, each
  key once.  Members inherited from a prototype (\<open>constructor\<close>, \<open>toString\<close>, the string
  and array methods read as properties) are not part of a value; an object that carries an
  own \<open>toString\<close> or \<open>valueOf\<close> property is outside the model.  The module is an ES
  module, hence strict: writing a property of a primitive throws.
\<close>

datatype jsval =
    JUndef
  | JNull
  | JBool bool
  | JNum jsnum
  | JStr string
  | JArr "jsval list"
  | JObj "(string \<times> jsval) list"

datatype js_error =
    TypeError
  | Unrepresentable  \<comment> \<open>a named property written on an array: not a value of \<open>jsval\<close>\<close>

definition bindE :: "'e + 'a \<Rightarrow> ('a \<Rightarrow> 'e + 'b) \<Rightarrow> 'e + 'b" where
  "bindE m f = (case m of Inl e \<Rightarrow> Inl e | Inr x \<Rightarrow> f x)"

fun truthy :: "jsval \<Rightarrow> bool" where
  "truthy JUndef = False"
| "truthy JNull = False"
| "truthy (JBool b) = b"
| "truthy (JNum n) = (n \<noteq> NaN \<and> n \<noteq> Fin 0)"
| "truthy (JStr s) = (s \<noteq> [])"
| "truthy (JArr _) = True"
| "truthy (JObj _) = True"

definition nullish :: "jsval \<Rightarrow> bool" where
  "nullish v = (v = JUndef \<or> v = JNull)"

definition js_or :: "jsval \<Rightarrow> jsval \<Rightarrow> jsval" where
  \<comment> \<open>\<open>a || b\<close> when evaluating \<open>b\<close> cannot throw\<close>
  "js_or a b = (if truthy a then a else b)"

fun toStr :: "jsval \<Rightarrow> string" where
  \<comment> \<open>\<open>String(v)\<close>, also the property key a value denotes\<close>
  "toStr JUndef = ''undefined''"
| "toStr JNull = ''null''"
| "toStr (JBool b) = (if b then ''true'' else ''false'')"
| "toStr (JNum n) = numToStr n"
| "toStr (JStr s) = s"
| "toStr (JArr xs) = join_with '','' (map (\<lambda>x. if x = JUndef \<or> x = JNull then [] else toStr x) xs)"
| "toStr (JObj _) = ''[object Object]''"

fun toNumber :: "jsval \<Rightarrow> jsnum" where
  \<comment> \<open>the coercion applied by \<open>v > 0\<close>\<close>
  "toNumber JUndef = NaN"
| "toNumber JNull = Fin 0"
| "toNumber (JBool b) = (if b then Fin 1 else Fin 0)"
| "toNumber (JNum n) = n"
| "toNumber v = Number_str (toStr v)"

definition parseFloat :: "jsval \<Rightarrow> jsnum" where
  "parseFloat v = parseFloat_str (toStr v)"

definition index_of_key :: "string \<Rightarrow> nat option" where
  \<comment> \<open>the array index a property key denotes, if it is a canonical numeric string\<close>
  "index_of_key k =
     (if k \<noteq> [] \<and> list_all is_digit k \<and> (k = ''0'' \<or> hd k \<noteq> CHR ''0'')
      then Some (nat (digits_val 10 k)) else None)"

definition nth_or_undef :: "jsval list \<Rightarrow> nat \<Rightarrow> jsval" where
  "nth_or_undef xs i = (if i < length xs then xs ! i else JUndef)"

fun getp :: "jsval \<Rightarrow> string \<Rightarrow> jsval" where
  \<comment> \<open>\<open>v[k]\<close> for \<open>v\<close> neither \<open>undefined\<close> nor \<open>null\<close>\<close>
  "getp (JObj kvs) k = (case map_of kvs k of Some v \<Rightarrow> v | None \<Rightarrow> JUndef)"
| "getp (JArr xs) k =
     (if k = ''length'' then JNum (Fin (of_nat (length xs)))
      else case index_of_key k of Some i \<Rightarrow> nth_or_undef xs i | None \<Rightarrow> JUndef)"
| "getp (JStr s) k =
     (if k = ''length'' then JNum (Fin (of_nat (length s)))
      else case index_of_key k of
             Some i \<Rightarrow> (if i < length s then JStr [s ! i] else JUndef)
           | None \<Rightarrow> JUndef)"
| "getp _ k = JUndef"

definition get :: "jsval \<Rightarrow> string \<Rightarrow> js_error + jsval" where
  \<comment> \<open>\<open>v.k\<close>: reading a property of \<open>undefined\<close> or \<open>null\<close> throws\<close>
  "get v k = (if nullish v then Inl TypeError else Inr (getp v k))"

definition getq :: "jsval \<Rightarrow> string \<Rightarrow> jsval" where
  \<comment> \<open>\<open>v?.k\<close>\<close>
  "getq v k = (if nullish v then JUndef else getp v k)"

fun assoc_set :: "('k \<times> 'v) list \<Rightarrow> 'k \<Rightarrow> 'v \<Rightarrow> ('k \<times> 'v) list" where
  \<comment> \<open>replace the value of a key where it stands, or add the key at the end\<close>
  "assoc_set [] k v = [(k, v)]"
| "assoc_set ((k', v') # kvs) k v =
     (if k' = k then (k, v) # kvs else (k', v') # assoc_set kvs k v)"

fun setp :: "jsval \<Rightarrow> string \<Rightarrow> jsval \<Rightarrow> js_error + jsval" where
  \<comment> \<open>the value of \<open>o\<close> after \<open>o[k] = v\<close>\<close>
  "setp (JObj kvs) k v = Inr (JObj (assoc_set kvs k v))"
| "setp (JArr xs) k v =
     (case index_of_key k of
        Some i \<Rightarrow> Inr (JArr ((xs @ replicate (Suc i - length xs) JUndef)[i := v]))
      | None \<Rightarrow> Inl Unrepresentable)"
| "setp _ k v = Inl TypeError"

definition isArray :: "jsval \<Rightarrow> bool" where
  "isArray v = (case v of JArr _ \<Rightarrow> True | _ \<Rightarrow> False)"

definition iterate :: "jsval \<Rightarrow> js_error + jsval list" where
  \<comment> \<open>the elements \<open>for (const x of v)\<close> visits: arrays and strings are iterable\<close>
  "iterate v = (case v of
       JArr xs \<Rightarrow> Inr xs
     | JStr s \<Rightarrow> Inr (map (\<lambda>c. JStr [c]) s)
     | _ \<Rightarrow> Inl TypeError)"

definition split_val :: "jsval \<Rightarrow> string \<Rightarrow> js_error + string list" where
  \<comment> \<open>\<open>v.split(sep)\<close>: only a string has the method\<close>
  "split_val v sep = (case v of JStr s \<Rightarrow> Inr (js_split s sep) | _ \<Rightarrow> Inl TypeError)"

section \<open>Condition evaluation: \<open>checkCondition\<close>\<close>

definition first_variant_field :: "jsval \<Rightarrow> string \<Rightarrow> js_error + jsval" where
  \<comment> \<open>\<open>product.variants && product.variants.length > 0 && product.variants[0].k\<close>\<close>
  "first_variant_field product k =
     (let variants = getp product ''variants'' in
      if \<not> truthy variants then Inr variants
      else if \<not> fgt (toNumber (getp variants ''length'')) (Fin 0) then Inr (JBool False)
      else get (getp variants ''0'') k)"

definition nested_lookup :: "jsval \<Rightarrow> jsval \<Rightarrow> jsval \<Rightarrow> js_error + jsval" where
  \<comment> \<open>\<open>if (field && field.includes('.'))\<close>: walk the dot-separated path from the product;
      \<open>pv\<close> is the value found so far\<close>
  "nested_lookup product field pv =
     (if \<not> truthy field then Inr pv
      else case field of
          JStr s \<Rightarrow>
            (if str_includes s ''.''
             then Inr (foldl getq product (js_split s ''.''))
             else Inr pv)
        | JArr xs \<Rightarrow> (if JStr ''.'' \<in> set xs then Inl TypeError else Inr pv)
        | _ \<Rightarrow> Inl TypeError)"

definition variant_override :: "jsval \<Rightarrow> string \<Rightarrow> jsval \<Rightarrow> js_error + jsval" where
  \<comment> \<open>price and SKU: \<open>variants[0].k\<close>, else \<open>product.k\<close>, else what was found so far\<close>
  "variant_override product k pv =
     bindE (first_variant_field product k) (\<lambda>c.
       if truthy c then Inr (getp (getp (getp product ''variants'') ''0'') k)
       else if truthy (getp product k) then Inr (getp product k)
       else Inr pv)"

definition is_tags_field :: "jsval \<Rightarrow> bool" where
  "is_tags_field field = (field = JStr ''Tags'' \<or> field = JStr ''tags'' \<or> field = JStr ''tag'')"

definition resolve_value :: "jsval \<Rightarrow> jsval \<Rightarrow> js_error + jsval" where
  \<comment> \<open>the value \<open>checkCondition\<close> compares: \<open>product[field]\<close>, the dotted path, then the
      per-field overrides, in the order of the source\<close>
  "resolve_value product field =
     bindE (nested_lookup product field (getp product (toStr field))) (\<lambda>pv1.
     bindE (if field = JStr ''price'' \<or> field = JStr ''Variant Price''
            then variant_override product ''price'' pv1 else Inr pv1) (\<lambda>pv2.
     let pv3 = (if field = JStr ''Title'' \<or> field = JStr ''title''
                then getp product ''title'' else pv2) in
     bindE (if field = JStr ''SKU'' \<or> field = JStr ''sku''
            then variant_override product ''sku'' pv3 else Inr pv3) (\<lambda>pv4.
     let pv5 = (if is_tags_field field \<and>
                   (isArray (getp product ''tags'') \<or> truthy (getp product ''tags''))
                then getp product ''tags'' else pv4);
         pv6 = (if field = JStr ''Vendor'' \<or> field = JStr ''vendor''
                then getp product ''vendor'' else pv5);
         pv7 = (if field = JStr ''Type'' \<or> field = JStr ''type''
                then getp product ''productType'' else pv6)
     in Inr pv7)))"

definition compare_tags :: "jsval list \<Rightarrow> jsval \<Rightarrow> jsval \<Rightarrow> bool" where
  \<comment> \<open>the switch over the operator for a tags array\<close>
  "compare_tags tags operator value =
     (let cv = toLowerCase (trim (toStr value));
          low = (\<lambda>tag. toLowerCase (toStr tag))
      in if operator = JStr ''eq'' \<or> operator = JStr ''equals''
           then list_ex (\<lambda>tag. low tag = cv) tags
         else if operator = JStr ''neq'' \<or> operator = JStr ''not_equals''
           then \<not> list_ex (\<lambda>tag. low tag = cv) tags
         else if operator = JStr ''starts'' \<or> operator = JStr ''starts_with''
           then list_ex (\<lambda>tag. startsWith (low tag) cv) tags
         else if operator = JStr ''ends'' \<or> operator = JStr ''ends_with''
           then list_ex (\<lambda>tag. endsWith (low tag) cv) tags
         else if operator = JStr ''contains''
           then list_ex (\<lambda>tag. str_includes (low tag) cv) tags
         else if operator = JStr ''ncontains'' \<or> operator = JStr ''not_contains''
           then \<not> list_ex (\<lambda>tag. str_includes (low tag) cv) tags
         else False)"

definition between_bounds :: "string \<Rightarrow> jsnum \<times> jsnum option" where
  \<comment> \<open>\<open>const [min, max] = conditionValueStr.split('-').map(Number)\<close>; \<open>max\<close> is
      \<open>undefined\<close> when there is no second piece\<close>
  "between_bounds cv = (case map Number_str (js_split cv ''-'') of
       [] \<Rightarrow> (NaN, None)
     | [mn] \<Rightarrow> (mn, None)
     | mn # mx # _ \<Rightarrow> (mn, Some mx))"

definition between :: "jsnum \<Rightarrow> jsnum \<times> jsnum option \<Rightarrow> bool" where
  \<comment> \<open>\<open>numValue >= min && (max === 0 || numValue <= max)\<close>\<close>
  "between num b = (case b of (mn, mx) \<Rightarrow>
     fge num mn \<and> (case mx of None \<Rightarrow> False | Some m \<Rightarrow> feq m (Fin 0) \<or> fle num m))"

definition compare_plain :: "jsval \<Rightarrow> jsval \<Rightarrow> jsval \<Rightarrow> bool" where
  \<comment> \<open>the switch over the operator for any other value, compared as a trimmed string\<close>
  "compare_plain pv operator value =
     (let ps = trim (toStr pv);
          cs = trim (toStr value)
      in if operator = JStr ''eq'' \<or> operator = JStr ''equals''
           then toLowerCase ps = toLowerCase cs
         else if operator = JStr ''neq'' \<or> operator = JStr ''not_equals''
           then toLowerCase ps \<noteq> toLowerCase cs
         else if operator = JStr ''starts'' \<or> operator = JStr ''starts_with''
           then startsWith (toLowerCase ps) (toLowerCase cs)
         else if operator = JStr ''ends'' \<or> operator = JStr ''ends_with''
           then endsWith (toLowerCase ps) (toLowerCase cs)
         else if operator = JStr ''contains''
           then str_includes (toLowerCase ps) (toLowerCase cs)
         else if operator = JStr ''ncontains'' \<or> operator = JStr ''not_contains''
           then \<not> str_includes (toLowerCase ps) (toLowerCase cs)
         else if operator = JStr ''between''
           then between (parseFloat_str ps) (between_bounds cs)
         else False)"

definition checkCondition :: "jsval \<Rightarrow> jsval \<Rightarrow> js_error + bool" where
  "checkCondition product condition =
     (if nullish product \<or> nullish condition then Inl TypeError
      else
        (let field = js_or (getp condition ''field'') (getp condition ''attribute'');
             operator = getp condition ''operator'';
             value = getp condition ''value''
         in bindE (resolve_value product field) (\<lambda>pv.
              if nullish pv then Inr False
              else case pv of
                  JArr tags \<Rightarrow>
                    (if is_tags_field field then Inr (compare_tags tags operator value)
                     else Inr (compare_plain pv operator value))
                | _ \<Rightarrow> Inr (compare_plain pv operator value))))"

section \<open>Markup application: \<open>applyMarkupRules\<close>\<close>

fun everyE :: "('a \<Rightarrow> 'e + bool) \<Rightarrow> 'a list \<Rightarrow> 'e + bool" where
  \<comment> \<open>\<open>xs.every(f)\<close>: stops at the first false, or at the first throw\<close>
  "everyE f [] = Inr True"
| "everyE f (x # xs) = bindE (f x) (\<lambda>b. if b then everyE f xs else Inr False)"

fun someE :: "('a \<Rightarrow> 'e + bool) \<Rightarrow> 'a list \<Rightarrow> 'e + bool" where
  \<comment> \<open>\<open>xs.some(f)\<close>: stops at the first true, or at the first throw\<close>
  "someE f [] = Inr False"
| "someE f (x # xs) = bindE (f x) (\<lambda>b. if b then Inr True else someE f xs)"

definition markup_type_percent :: "jsval \<Rightarrow> bool" where
  "markup_type_percent t = (t = JStr ''percent'' \<or> t = JStr ''percentage'')"

definition markup_value :: "jsval \<Rightarrow> jsnum" where
  \<comment> \<open>\<open>parseFloat(condition.markupValue || condition.value || '0')\<close>\<close>
  "markup_value c =
     parseFloat (js_or (getp c ''markupValue'') (js_or (getp c ''value'') (JStr ''0'')))"

definition current_price :: "jsval \<Rightarrow> jsnum" where
  \<comment> \<open>\<open>parseFloat(product.variants?.[0]?.price || '0')\<close>\<close>
  "current_price product =
     parseFloat (js_or (getq (getq (getp product ''variants'') ''0'') ''price'') (JStr ''0''))"

definition new_price :: "jsval \<Rightarrow> jsnum \<Rightarrow> jsnum \<Rightarrow> jsnum option" where
  \<comment> \<open>the price a markup of the given type and value makes of the current price;
      \<open>None\<close> is the \<open>continue\<close> of the source: type or value not valid\<close>
  "new_price t v cur =
     (if markup_type_percent t \<and> fgt v (Fin 0)
        then Some (fmul cur (fadd (Fin 1) (fdiv v (Fin 100))))
      else if t = JStr ''fixed'' \<and> fgt v (Fin 0)
        then Some (fadd cur v)
      else None)"

definition write_markup :: "jsval \<Rightarrow> jsval \<Rightarrow> jsnum \<Rightarrow> jsnum \<Rightarrow> js_error + jsval" where
  \<comment> \<open>the four assignments made when the new price differs from the current one\<close>
  "write_markup product t v np =
     bindE (get (getp product ''variants'') ''0'') (\<lambda>v0.
     if nullish v0 then Inl TypeError else
     bindE (setp v0 ''price'' (JStr (toFixed2 np))) (\<lambda>v0'.
     bindE (setp (getp product ''variants'') ''0'' v0') (\<lambda>variants'.
     bindE (setp product ''variants'' variants') (\<lambda>p1.
     bindE (setp p1 ''markupApplied'' (JBool True)) (\<lambda>p2.
     bindE (setp p2 ''markupType''
              (JStr (if markup_type_percent t then ''percentage'' else ''fixed''))) (\<lambda>p3.
     setp p3 ''markupValue'' (JStr (numToStr v))))))))"

definition apply_condition :: "jsval \<Rightarrow> jsval \<Rightarrow> js_error + jsval option" where
  \<comment> \<open>one turn of the loop over the conditions: \<open>Some\<close> is the \<open>break\<close> with the product
      as written, \<open>None\<close> goes on to the next condition.  The flag \<open>appliedMarkup\<close> is
      false whenever the loop body runs, since setting it is followed by \<open>break\<close>.\<close>
  "apply_condition product c =
     bindE (checkCondition product c) (\<lambda>m.
       if \<not> m then Inr None
       else
         (let t = getp c ''markupType'';
              v = markup_value c;
              cur = current_price product
          in case new_price t v cur of
               None \<Rightarrow> Inr None
             | Some np \<Rightarrow>
                 (if \<not> feq np cur
                  then bindE (write_markup product t v np) (\<lambda>p'. Inr (Some p'))
                  else Inr None)))"

fun markup_loop :: "jsval \<Rightarrow> jsval list \<Rightarrow> js_error + jsval" where
  "markup_loop product [] = Inr product"
| "markup_loop product (c # cs) =
     bindE (apply_condition product c) (\<lambda>r.
       case r of Some p' \<Rightarrow> Inr p' | None \<Rightarrow> markup_loop product cs)"

definition conditions_match :: "jsval \<Rightarrow> jsval \<Rightarrow> jsval list \<Rightarrow> js_error + bool" where
  \<comment> \<open>\<open>every\<close> when \<open>conditionsType === 'all'\<close>, \<open>some\<close> otherwise\<close>
  "conditions_match product markupConfig cs =
     (if getp markupConfig ''conditionsType'' = JStr ''all''
      then everyE (checkCondition product) cs
      else someE (checkCondition product) cs)"

definition applyMarkupRules :: "jsval \<Rightarrow> jsval \<Rightarrow> js_error + jsval" where
  "applyMarkupRules product markupConfig =
     (if nullish product then Inl TypeError
      else if \<not> truthy (getq (getq markupConfig ''conditions'') ''length'') then Inr product
      else case getp markupConfig ''conditions'' of
          JArr cs \<Rightarrow>
            bindE (conditions_match product markupConfig cs) (\<lambda>m.
              if m then markup_loop product cs else Inr product)
        | _ \<Rightarrow> Inl TypeError)"

section \<open>Source transformers: \<open>processCsvData\<close> and \<open>fetchApiData\<close>\<close>


definition has_selected_values :: "jsval \<Rightarrow> bool" where
  \<comment> \<open>\<open>importFilters?.selectedValues?.length > 0\<close>\<close>
  "has_selected_values importFilters =
     fgt (toNumber (getq (getq importFilters ''selectedValues'') ''length'')) (Fin 0)"

definition token_parts :: "jsval \<Rightarrow> js_error + (string \<times> string) option" where
  \<comment> \<open>\<open>const [key, value] = token.split('::')\<close>; \<open>None\<close> when \<open>!key || !value\<close>\<close>
  "token_parts token = bindE (split_val token ''::'') (\<lambda>ps.
     case ps of
       k # v # _ \<Rightarrow> Inr (if k \<noteq> [] \<and> v \<noteq> [] then Some (k, v) else None)
     | _ \<Rightarrow> Inr None)"

fun mapE :: "('a \<Rightarrow> 'e + 'b) \<Rightarrow> 'a list \<Rightarrow> 'e + 'b list" where
  "mapE f [] = Inr []"
| "mapE f (x # xs) = bindE (f x) (\<lambda>y. bindE (mapE f xs) (\<lambda>ys. Inr (y # ys)))"

definition value_matches :: "jsval \<Rightarrow> string \<Rightarrow> string \<Rightarrow> js_error + bool" where
  \<comment> \<open>the three tests on a row or item: equal, contains the filter value, or is contained
      in it, all on trimmed lower-case strings\<close>
  "value_matches row key val =
     bindE (get row key) (\<lambda>rv.
       let r = toLowerCase (trim (toStr (js_or rv (JStr []))));
           f = toLowerCase (trim val)
       in Inr (r = f \<or> str_includes r f \<or> str_includes f r))"

definition set_add :: "nat list \<Rightarrow> nat \<Rightarrow> nat list" where
  \<comment> \<open>\<open>Set.add\<close>: a set keeps its elements in the order they were first added\<close>
  "set_add s i = (if i \<in> set s then s else s @ [i])"

fun scan_rows :: "string \<Rightarrow> string \<Rightarrow> nat \<Rightarrow> jsval list \<Rightarrow> nat list \<Rightarrow> js_error + nat list" where
  \<comment> \<open>\<open>csvData.rows.forEach((row, index) => ...)\<close> for one token, from row \<open>index\<close> on\<close>
  "scan_rows key val index [] sel = Inr sel"
| "scan_rows key val index (row # rows) sel =
     bindE (value_matches row key val) (\<lambda>m.
       scan_rows key val (Suc index) rows (if m then set_add sel index else sel))"

fun select_indices :: "jsval list \<Rightarrow> jsval list \<Rightarrow> nat list \<Rightarrow> js_error + nat list" where
  \<comment> \<open>the loop over the selector tokens that fills \<open>selectedIndices\<close>\<close>
  "select_indices tokens rows sel = (case tokens of
       [] \<Rightarrow> Inr sel
     | token # rest \<Rightarrow>
         bindE (token_parts token) (\<lambda>kv.
           case kv of
             None \<Rightarrow> select_indices rest rows sel
           | Some (key, val) \<Rightarrow>
               bindE (scan_rows key val 0 rows sel) (\<lambda>sel'. select_indices rest rows sel')))"

fun filter_tags :: "jsval list \<Rightarrow> js_error + jsval list" where
  \<comment> \<open>the values of the well-formed tokens, in token order\<close>
  "filter_tags [] = Inr []"
| "filter_tags (token # rest) =
     bindE (token_parts token) (\<lambda>kv.
       bindE (filter_tags rest) (\<lambda>ts.
         Inr (case kv of None \<Rightarrow> ts | Some (key, val) \<Rightarrow> JStr val # ts)))"

definition with_filter_tags :: "jsval \<Rightarrow> jsval list \<Rightarrow> js_error + jsval list" where
  "with_filter_tags importFilters tags =
     (if has_selected_values importFilters
      then bindE (iterate (getp importFilters ''selectedValues'')) (\<lambda>tokens.
           bindE (filter_tags tokens) (\<lambda>ft. Inr (tags @ ft)))
      else Inr tags)"

definition or3 :: "jsval \<Rightarrow> jsval \<Rightarrow> jsval \<Rightarrow> jsval" where
  "or3 a b c = js_or a (js_or b c)"

definition csv_tags :: "jsval \<Rightarrow> js_error + jsval list" where
  \<comment> \<open>\<open>row.Tags ? row.Tags.split(',').map(tag => tag.trim()) : []\<close>\<close>
  "csv_tags row =
     (if truthy (getp row ''Tags'')
      then bindE (split_val (getp row ''Tags'') '','') (\<lambda>ps. Inr (map (\<lambda>t. JStr (trim t)) ps))
      else Inr [])"

definition csv_product :: "jsval \<Rightarrow> jsval \<Rightarrow> nat \<Rightarrow> js_error + jsval" where
  \<comment> \<open>the canonical product made of the row at position \<open>index\<close> of the filtered rows\<close>
  "csv_product importFilters row index =
     (if nullish row then Inl TypeError else
      bindE (csv_tags row) (\<lambda>tags0.
      bindE (with_filter_tags importFilters tags0) (\<lambda>tags.
        Inr (JObj
          [(''title'', or3 (getp row ''Title'') (getp row ''title'')
                         (JStr (''Product '' @ show_int (int index + 1)))),
           (''descriptionHtml'', or3 (getp row ''Description'') (getp row ''description'') (JStr [])),
           (''vendor'', or3 (getp row ''Vendor'') (getp row ''vendor'') (JStr ''Default Vendor'')),
           (''productType'', or3 (getp row ''Type'') (getp row ''type'') (JStr ''Default Type'')),
           (''tags'', JArr tags),
           (''status'', JStr ''DRAFT''),
           (''variants'', JArr [JObj
              [(''price'', or3 (getp row ''Variant Price'') (getp row ''price'') (JStr ''10.00'')),
               (''compareAtPrice'',
                  or3 (getp row ''Variant Compare At Price'') (getp row ''compareAtPrice'') (JStr [])),
               (''sku'', or3 (getp row ''SKU'') (getp row ''sku'')
                           (JStr (''SKU-'' @ show_int (int index + 1)))),
               (''barcode'', or3 (getp row ''Variant Barcode'') (getp row ''barcode'') (JStr [])),
               (''inventoryQuantity'',
                  or3 (getp row ''Variant Inventory Quantity'') (getp row ''inventoryQuantity'')
                      (JNum (Fin 0))),
               (''image_url'', or3 (getp row ''Image URL'') (getp row ''image_url'') (JStr []))]])]))))"

fun csv_products :: "jsval \<Rightarrow> nat \<Rightarrow> jsval list \<Rightarrow> js_error + jsval list" where
  \<comment> \<open>\<open>filteredRows.map((row, index) => ...)\<close>, from position \<open>index\<close> on\<close>
  "csv_products importFilters index [] = Inr []"
| "csv_products importFilters index (row # rows) =
     bindE (csv_product importFilters row index) (\<lambda>p.
       bindE (csv_products importFilters (Suc index) rows) (\<lambda>ps. Inr (p # ps)))"

definition selected_row_indices :: "jsval \<Rightarrow> jsval list \<Rightarrow> js_error + nat list" where
  \<comment> \<open>the indices of the rows \<open>processCsvData\<close> keeps, in the order it keeps them\<close>
  "selected_row_indices importFilters rows =
     (if has_selected_values importFilters
      then bindE (iterate (getp importFilters ''selectedValues'')) (\<lambda>tokens.
             select_indices tokens rows [])
      else Inr [0 ..< length rows])"

definition processCsvData :: "jsval \<Rightarrow> jsval \<Rightarrow> jsval \<Rightarrow> js_error + jsval list" where
  "processCsvData csvData importFilters keyMappings =
     (case getq csvData ''rows'' of
        JArr rows \<Rightarrow>
          bindE (selected_row_indices importFilters rows) (\<lambda>sel.
            csv_products importFilters 0 (map (nth_or_undef rows) sel))
      | _ \<Rightarrow> Inr [])"













section \<open>The record store and the progress query\<close>

text \<open>
  The persistence layer is used as a keyed record store.  An import session carries its
  status, the three counters and the completion stamp; an imported-product record carries
  the fields the route reads back.  Time stamps are natural numbers.
\<close>

record import_session =
  status :: string
  importedProducts :: nat
  failedProducts :: nat
  totalProducts :: nat
  completedAt :: "nat option"

record imported_product =
  importSessionId :: string
  shopifyProductId :: string
  title :: string
  createdAt :: nat

record database =
  sessions :: "(string \<times> import_session) list"
  products :: "imported_product list"

datatype progress_response =
    ErrorResponse nat string
      \<comment> \<open>HTTP status and message\<close>
  | Progress string nat nat nat string string
      \<comment> \<open>\<open>sessionId\<close>, \<open>imported\<close>, \<open>failed\<close>, \<open>totalProducts\<close>, \<open>currentProduct\<close>, \<open>status\<close>\<close>

definition latest_product :: "imported_product list \<Rightarrow> string \<Rightarrow> imported_product option" where
  \<comment> \<open>\<open>findFirst({ where: { importSessionId }, orderBy: { createdAt: 'desc' } })\<close>: a record
      of the session with the greatest \<open>createdAt\<close>, the earliest stored among equals\<close>
  "latest_product tbl sid =
     foldl (\<lambda>best r.
              if importSessionId r = sid \<and>
                 (case best of None \<Rightarrow> True | Some b \<Rightarrow> createdAt b < createdAt r)
              then Some r else best)
       None tbl"

definition currentProductName :: "import_session \<Rightarrow> imported_product option \<Rightarrow> string" where
  "currentProductName currentSession latestProduct =
     (if status currentSession = ''processing''
      then (case latestProduct of
              None \<Rightarrow> ''Processing...''
            | Some r \<Rightarrow> (if title r \<noteq> [] then title r else ''Processing...''))
      else ''Import completed'')"

definition getProgress :: "database \<Rightarrow> string option \<Rightarrow> progress_response" where
  \<comment> \<open>the \<open>getProgress\<close> case of the loader; \<open>None\<close> is a request without \<open>sessionId\<close>\<close>
  "getProgress db sessionId = (case sessionId of
       None \<Rightarrow> ErrorResponse 400 ''Missing session ID''
     | Some sid \<Rightarrow>
        (if sid = [] then ErrorResponse 400 ''Missing session ID''
         else case map_of (sessions db) sid of
             None \<Rightarrow> ErrorResponse 404 ''Session not found''
           | Some currentSession \<Rightarrow>
               Progress sid
                 (importedProducts currentSession)
                 (failedProducts currentSession)
                 (totalProducts currentSession)
                 (currentProductName currentSession (latest_product (products db) sid))
                 (if status currentSession \<noteq> [] then status currentSession else ''pending'')))"

section \<open>The batch loop of \<open>bulkCreateProducts\<close>\<close>

text \<open>
  What the loop gets from outside (the record store, the catalog API) is an input of the
  model: for each product, an \<open>item_env\<close> says how each external call of that turn
  ends.  Request payloads are not modelled; they do not flow back into the loop.
  \<open>publishProductToSalesChannels\<close> catches everything inside and has no effect on the
  loop.
\<close>

datatype 'a outcome = Throws string | Returns 'a

record item_env =
  head_update_ok :: bool
    \<comment> \<open>the session update before the product is processed resolves\<close>
  by_sku :: "imported_product option outcome"
    \<comment> \<open>\<open>findFirst\<close> by shop and SKU\<close>
  by_title :: "imported_product option outcome"
    \<comment> \<open>\<open>findFirst\<close> by shop and title\<close>
  update_result :: "string outcome"
    \<comment> \<open>\<open>updateShopifyProduct\<close>: the id of the updated product\<close>
  create_result :: "string option outcome"
    \<comment> \<open>the \<open>productCreate\<close> call: the id of \<open>productCreate.product\<close>, if the response has one\<close>
  images_result :: "unit outcome"
  variants_result :: "unit outcome"
  progress_update_ok :: bool
    \<comment> \<open>the session update after a success resolves\<close>
  record_create_ok :: bool
    \<comment> \<open>\<open>importedProduct.create\<close> resolves\<close>
  catch_update_ok :: bool
    \<comment> \<open>the session update of the \<open>catch\<close> block resolves\<close>
  now :: nat

datatype result_entry =
    Succeeded string       \<comment> \<open>\<open>{ success: true, product }\<close>, by product id\<close>
  | Failed jsval string    \<comment> \<open>\<open>{ success: false, product: title, error }\<close>\<close>

record loop_state =
  importedCount :: nat
  failedCount :: nat
  results :: "result_entry list"
  db :: database
  session_writes :: "import_session list"
    \<comment> \<open>every persisted state of the session, in the order written; not in the source,
        kept to speak about the sequence of updates\<close>

definition update_session ::
  "bool \<Rightarrow> string \<Rightarrow> (import_session \<Rightarrow> import_session) \<Rightarrow> loop_state \<Rightarrow> loop_state option" where
  \<comment> \<open>\<open>prisma.importSession.update\<close>: \<open>None\<close> when it rejects, which it also does for an
      unknown id\<close>
  "update_session ok sid f st = (case map_of (sessions (db st)) sid of
       None \<Rightarrow> None
     | Some s \<Rightarrow>
         (if ok
          then Some (st\<lparr>db := (db st)\<lparr>sessions := assoc_set (sessions (db st)) sid (f s)\<rparr>,
                        session_writes := session_writes st @ [f s]\<rparr>)
          else None))"

definition progress_data :: "loop_state \<Rightarrow> import_session \<Rightarrow> import_session" where
  \<comment> \<open>\<open>{ importedProducts: importedCount, failedProducts: failedCount, status: 'processing' }\<close>\<close>
  "progress_data st s =
     s\<lparr>importedProducts := importedCount st, failedProducts := failedCount st,
       status := ''processing''\<rparr>"

definition checkProductInDatabase ::
  "item_env \<Rightarrow> jsval \<Rightarrow> jsval \<Rightarrow> imported_product option" where
  \<comment> \<open>by SKU first, then by title; a rejected query ends in the \<open>catch\<close>, which returns null\<close>
  "checkProductInDatabase env sku ttl =
     (case (if truthy sku then by_sku env else Returns None) of
        Throws _ \<Rightarrow> None
      | Returns (Some r) \<Rightarrow> Some r
      | Returns None \<Rightarrow>
          (case (if truthy ttl then by_title env else Returns None) of
             Throws _ \<Rightarrow> None
           | Returns r \<Rightarrow> r))"

definition image_of_variant :: "jsval \<Rightarrow> js_error + string option" where
  \<comment> \<open>\<open>variant.image_url\<close> when it is a string that is not blank, trimmed\<close>
  "image_of_variant variant = bindE (get variant ''image_url'') (\<lambda>u.
     Inr (case u of JStr s \<Rightarrow> (if trim s \<noteq> [] then Some (trim s) else None) | _ \<Rightarrow> None))"

definition product_images :: "jsval \<Rightarrow> js_error + string list" where
  "product_images p =
     (let variants = getp p ''variants'' in
      if truthy variants \<and> fgt (toNumber (getp variants ''length'')) (Fin 0)
      then bindE (iterate variants) (\<lambda>vs.
           bindE (mapE image_of_variant vs) (\<lambda>us. Inr (List.map_filter id us)))
      else Inr [])"

definition variant_inputs :: "jsval \<Rightarrow> js_error + unit" where
  \<comment> \<open>\<open>processedProduct.variants.map(...)\<close> needs an array, its callback a variant that is
      not null; the inputs built are sent out and not kept\<close>
  "variant_inputs variants = (case variants of
       JArr vs \<Rightarrow> (if list_ex nullish vs then Inl TypeError else Inr ())
     | _ \<Rightarrow> Inl TypeError)"

definition error_message :: "js_error \<Rightarrow> string" where
  "error_message e = (case e of TypeError \<Rightarrow> ''TypeError'' | Unrepresentable \<Rightarrow> ''Unrepresentable'')"

definition guarded_update :: "bool \<Rightarrow> string \<Rightarrow> loop_state \<Rightarrow> loop_state" where
  \<comment> \<open>the progress update inside its own \<open>try\<close>: a rejection is logged and nothing else\<close>
  "guarded_update ok sid st =
     (case update_session ok sid (progress_data st) st of Some st' \<Rightarrow> st' | None \<Rightarrow> st)"

definition store_record ::
  "item_env \<Rightarrow> string \<Rightarrow> string \<Rightarrow> jsval \<Rightarrow> loop_state \<Rightarrow> loop_state" where
  \<comment> \<open>\<open>importedProduct.create\<close> inside its own \<open>try\<close>; the store rejects a title that is
      not a string\<close>
  "store_record env sid productId p st =
     (case js_or (getp p ''title'') (JStr []) of
        JStr t \<Rightarrow>
          (if record_create_ok env
           then st\<lparr>db := (db st)\<lparr>products := products (db st) @
                  [\<lparr>importSessionId = sid, shopifyProductId = productId,
                    title = t, createdAt = now env\<rparr>]\<rparr>\<rparr>
           else st)
      | _ \<Rightarrow> st)"

definition record_success ::
  "item_env \<Rightarrow> string \<Rightarrow> string \<Rightarrow> jsval \<Rightarrow> loop_state \<Rightarrow> loop_state" where
  \<comment> \<open>the end of both success paths: count, update the session, store the record, push the
      result\<close>
  "record_success env sid productId p st =
     (let st1 = st\<lparr>importedCount := importedCount st + 1\<rparr>;
          st2 = guarded_update (progress_update_ok env) sid st1;
          st3 = store_record env sid productId p st2
      in st3\<lparr>results := results st3 @ [Succeeded productId]\<rparr>)"

definition create_product ::
  "item_env \<Rightarrow> string \<Rightarrow> jsval \<Rightarrow> string list \<Rightarrow> loop_state
     \<Rightarrow> (string \<times> loop_state) + loop_state" where
  \<comment> \<open>the branch \<open>if (!isUpdate)\<close>\<close>
  "create_product env sid p productImages st = (case create_result env of
       Throws m \<Rightarrow> Inl (m, st)
     | Returns None \<Rightarrow>
         Inr (st\<lparr>failedCount := failedCount st + 1,
                 results := results st @ [Failed (getp p ''title'') ''Product creation failed'']\<rparr>)
     | Returns (Some productId) \<Rightarrow>
         (case (if productImages \<noteq> [] then images_result env else Returns ()) of
            Throws m \<Rightarrow> Inl (m, st)
          | Returns _ \<Rightarrow>
              (let variants = getp p ''variants'' in
               if truthy variants \<and> fgt (toNumber (getp variants ''length'')) (Fin 0)
               then (case variant_inputs variants of
                       Inl e \<Rightarrow> Inl (error_message e, st)
                     | Inr _ \<Rightarrow>
                         (case variants_result env of
                            Throws m \<Rightarrow> Inl (m, st)
                          | Returns _ \<Rightarrow> Inr (record_success env sid productId p st)))
               else Inr (record_success env sid productId p st))))"

definition try_body ::
  "item_env \<Rightarrow> string \<Rightarrow> jsval \<Rightarrow> jsval \<Rightarrow> jsval \<Rightarrow> loop_state
     \<Rightarrow> (string \<times> loop_state) + loop_state" where
  \<comment> \<open>the \<open>try\<close> block of one turn; \<open>Inl\<close> is a throw, with the state at that point\<close>
  "try_body env sid markupConfig importConfig productData st =
     (case applyMarkupRules productData markupConfig of
        Inl e \<Rightarrow> Inl (error_message e, st)
      | Inr p0 \<Rightarrow>
     (case setp p0 ''status''
             (JStr (if importConfig = JStr ''published'' then ''ACTIVE'' else ''DRAFT'')) of
        Inl e \<Rightarrow> Inl (error_message e, st)
      | Inr processedProduct \<Rightarrow>
     (case product_images processedProduct of
        Inl e \<Rightarrow> Inl (error_message e, st)
      | Inr productImages \<Rightarrow>
     (let existingProduct =
            checkProductInDatabase env
              (js_or (getq (getq (getp processedProduct ''variants'') ''0'') ''sku'') (JStr []))
              (getp processedProduct ''title'');
          updated = (case existingProduct of
                       None \<Rightarrow> None
                     | Some r \<Rightarrow>
                         (if shopifyProductId r \<noteq> []
                          then (case update_result env of
                                  Returns productId \<Rightarrow> Some productId
                                | Throws _ \<Rightarrow> None)
                          else None))
      in case updated of
           None \<Rightarrow> create_product env sid processedProduct productImages st
         | Some productId \<Rightarrow> Inr (record_success env sid productId processedProduct st)))))"

definition iteration ::
  "item_env \<Rightarrow> string \<Rightarrow> jsval \<Rightarrow> jsval \<Rightarrow> nat \<Rightarrow> jsval \<Rightarrow> loop_state
     \<Rightarrow> (string \<times> loop_state) + loop_state" where
  \<comment> \<open>one turn of the \<open>for\<close> loop; \<open>Inl\<close> is a throw that leaves the loop: reading the
      title of a product that is null, or a session update outside the \<open>try\<close> block that
      rejects\<close>
  "iteration env sid markupConfig importConfig totalCount productData st =
     (if nullish productData then Inl (''TypeError'', st)
      else case update_session (head_update_ok env) sid
             (\<lambda>s. (progress_data st s)\<lparr>totalProducts := totalCount\<rparr>) st of
        None \<Rightarrow> Inl (''session update rejected'', st)
      | Some st1 \<Rightarrow>
          (case try_body env sid markupConfig importConfig productData st1 of
             Inr st2 \<Rightarrow> Inr st2
           | Inl (m, st2) \<Rightarrow>
               (let st3 = st2\<lparr>failedCount := failedCount st2 + 1\<rparr> in
                case update_session (catch_update_ok env) sid (progress_data st3) st3 of
                  None \<Rightarrow> Inl (''session update rejected'', st3)
                | Some st4 \<Rightarrow>
                    Inr (st4\<lparr>results := results st4 @
                           [Failed (getp productData ''title'')
                              (if m \<noteq> [] then m else ''Unknown error'')]\<rparr>))))"

fun import_loop ::
  "(nat \<Rightarrow> item_env) \<Rightarrow> string \<Rightarrow> jsval \<Rightarrow> jsval \<Rightarrow> nat \<Rightarrow> nat \<Rightarrow> jsval list \<Rightarrow> loop_state
     \<Rightarrow> (string \<times> loop_state) + loop_state" where
  \<comment> \<open>the turns for the products from index \<open>i\<close> on\<close>
  "import_loop envs sid markupConfig importConfig totalCount i [] st = Inr st"
| "import_loop envs sid markupConfig importConfig totalCount i (p # ps) st =
     (case iteration (envs i) sid markupConfig importConfig totalCount p st of
        Inl a \<Rightarrow> Inl a
      | Inr st' \<Rightarrow> import_loop envs sid markupConfig importConfig totalCount (Suc i) ps st')"

definition initial_state :: "database \<Rightarrow> loop_state" where
  "initial_state d =
     \<lparr>importedCount = 0, failedCount = 0, results = [], db = d, session_writes = []\<rparr>"

definition final_data :: "nat \<Rightarrow> loop_state \<Rightarrow> import_session \<Rightarrow> import_session" where
  "final_data t st s =
     s\<lparr>importedProducts := importedCount st, failedProducts := failedCount st,
       status := ''completed'', completedAt := Some t\<rparr>"

definition bulkCreateProducts ::
  "(nat \<Rightarrow> item_env) \<Rightarrow> bool \<Rightarrow> nat \<Rightarrow> string \<Rightarrow> jsval \<Rightarrow> jsval \<Rightarrow> jsval list \<Rightarrow> database
     \<Rightarrow> (string \<times> loop_state) + loop_state" where
  \<comment> \<open>from the counters set to zero to the response: the loop over the products to
      process, then the final session update at time \<open>t\<close>.  \<open>Inl\<close> is the throw caught
      around the whole import, answered with status 500; \<open>Inr\<close> carries what the success
      response reports.\<close>
  "bulkCreateProducts envs final_update_ok t sid markupConfig importConfig productsToProcess d =
     (case import_loop envs sid markupConfig importConfig (length productsToProcess) 0
             productsToProcess (initial_state d) of
        Inl a \<Rightarrow> Inl a
      | Inr st \<Rightarrow>
          (case update_session final_update_ok sid (final_data t st) st of
             None \<Rightarrow> Inl (''session update rejected'', st)
           | Some st' \<Rightarrow> Inr st'))"

section \<open>Auxiliary definitions for the properties\<close>

definition currentProduct_of :: "progress_response \<Rightarrow> string option" where
  "currentProduct_of r = (case r of Progress _ _ _ _ cur _ \<Rightarrow> Some cur | ErrorResponse _ _ \<Rightarrow> None)"

definition session_processing :: import_session where
  "session_processing =
     \<lparr>status = ''processing'', importedProducts = 0, failedProducts = 0, totalProducts = 3,
      completedAt = None\<rparr>"

definition db_processing :: database where
  \<comment> \<open>a session whose first product is being processed: no record stored yet\<close>
  "db_processing = \<lparr>sessions = [(''s1'', session_processing)], products = []\<rparr>"

definition db_two_records :: database where
  "db_two_records =
     \<lparr>sessions = [(''s1'', session_processing)],
      products =
        [\<lparr>importSessionId = ''s1'', shopifyProductId = ''gid-1'', title = ''Shirt'', createdAt = 10\<rparr>,
         \<lparr>importSessionId = ''s1'', shopifyProductId = ''gid-2'', title = ''Mug'', createdAt = 20\<rparr>,
         \<lparr>importSessionId = ''s0'', shopifyProductId = ''gid-3'', title = ''Cap'', createdAt = 30\<rparr>]\<rparr>"

definition tags_of :: "jsval \<Rightarrow> jsval list" where
  "tags_of p = (case getp p ''tags'' of JArr ts \<Rightarrow> ts | _ \<Rightarrow> [])"

definition csv_one_row :: jsval where
  "csv_one_row = JObj [(''rows'', JArr [JObj [(''Title'', JStr ''A'')]])]"

definition filters_repeat :: "nat \<Rightarrow> jsval" where
  \<comment> \<open>\<open>n\<close> times the selector token \<open>Title::A\<close>\<close>
  "filters_repeat n = JObj [(''selectedValues'', JArr (replicate n (JStr ''Title::A'')))]"



definition first_occurrences :: "nat list \<Rightarrow> nat list" where
  \<comment> \<open>a list without the repetitions of its elements, each standing where it first occurs\<close>
  "first_occurrences xs = rev (remdups (rev xs))"

definition valid_tokens :: "jsval list \<Rightarrow> (string \<times> string) list" where
  \<comment> \<open>key and value of the tokens that have both, in token order\<close>
  "valid_tokens tokens =
     concat (map (\<lambda>t. case token_parts t of Inr (Some kv) \<Rightarrow> [kv] | _ \<Rightarrow> []) tokens)"

definition matching_rows_from :: "nat \<Rightarrow> jsval list \<Rightarrow> string \<times> string \<Rightarrow> nat list" where
  \<comment> \<open>the indices, ascending, of the rows that match a token; the first row has index \<open>i\<close>\<close>
  "matching_rows_from i rows kv =
     map fst (filter (\<lambda>(j, row). value_matches row (fst kv) (snd kv) = Inr True)
                (zip [i ..< i + length rows] rows))"

definition matching_rows :: "jsval list \<Rightarrow> string \<times> string \<Rightarrow> nat list" where
  "matching_rows rows kv = matching_rows_from 0 rows kv"

definition csv_two_rows :: "jsval list" where
  "csv_two_rows = [JObj [(''Title'', JStr ''A''), (''Color'', JStr ''red'')],
                   JObj [(''Title'', JStr ''B''), (''Color'', JStr ''blue'')]]"

definition filters_blue_red :: jsval where
  "filters_blue_red = JObj [(''selectedValues'', JArr [JStr ''Color::blue'', JStr ''Color::red''])]"

definition product_priced :: "string \<Rightarrow> jsval" where
  \<comment> \<open>a canonical product with one variant at the given price\<close>
  "product_priced price =
     JObj [(''title'', JStr ''A''), (''descriptionHtml'', JStr []), (''vendor'', JStr ''V''),
           (''productType'', JStr ''T''), (''tags'', JArr [JStr ''sale'']),
           (''status'', JStr ''DRAFT''),
           (''variants'', JArr [JObj [(''price'', JStr price), (''sku'', JStr ''SKU-1'')]])]"

definition price_between :: "string \<Rightarrow> jsval" where
  "price_between bounds =
     JObj [(''field'', JStr ''price''), (''operator'', JStr ''between''), (''value'', JStr bounds)]"

definition first_piece :: "string \<Rightarrow> string" where
  \<comment> \<open>the text before the first dash; the whole text when it has no dash\<close>
  "first_piece s = takeWhile (\<lambda>c. c \<noteq> CHR ''-'') s"

definition second_piece :: "string \<Rightarrow> string" where
  \<comment> \<open>the text between the first dash and the second, or the end when there is no second\<close>
  "second_piece s = first_piece (tl (dropWhile (\<lambda>c. c \<noteq> CHR ''-'') s))"

definition valid_markup :: "jsval \<Rightarrow> bool" where
  \<comment> \<open>the markup type is one of the three known ones, and the markup number is greater
      than 0; the number is parsed from \<open>markupValue\<close>, from \<open>value\<close> when \<open>markupValue\<close>
      is falsy (absent, 0, empty), from \<open>'0'\<close> when both are\<close>
  "valid_markup c =
     ((getp c ''markupType'' = JStr ''percent'' \<or> getp c ''markupType'' = JStr ''percentage''
        \<or> getp c ''markupType'' = JStr ''fixed'')
      \<and> fgt (parseFloat (if truthy (getp c ''markupValue'') then getp c ''markupValue''
                          else if truthy (getp c ''value'') then getp c ''value''
                          else JStr ''0'')) (Fin 0))"

definition marked_up_price :: "jsval \<Rightarrow> jsval \<Rightarrow> jsnum" where
  \<comment> \<open>\<open>price * (1 + v / 100)\<close> for the types percent and percentage, \<open>price + v\<close>
      otherwise, in binary64 arithmetic and not rounded to cents\<close>
  "marked_up_price product c =
     (if getp c ''markupType'' = JStr ''percent'' \<or> getp c ''markupType'' = JStr ''percentage''
      then fmul (current_price product) (fadd (Fin 1) (fdiv (markup_value c) (Fin 100)))
      else fadd (current_price product) (markup_value c))"

definition effective :: "jsval \<Rightarrow> jsval \<Rightarrow> bool" where
  \<comment> \<open>the condition is true of the product, its markup is valid, and the price it
      computes, before rounding, differs from the current price\<close>
  "effective product c =
     (checkCondition product c = Inr True \<and> valid_markup c
      \<and> \<not> feq (marked_up_price product c) (current_price product))"

definition first_variant_price :: "jsval \<Rightarrow> jsval" where
  "first_variant_price p = getp (getp (getp p ''variants'') ''0'') ''price''"

definition markup_rule :: "string \<Rightarrow> rat \<Rightarrow> jsval" where
  \<comment> \<open>a condition on the title \<open>A\<close> with the given markup\<close>
  "markup_rule markupType markupValue =
     JObj [(''field'', JStr ''title''), (''operator'', JStr ''eq''), (''value'', JStr ''A''),
           (''markupType'', JStr markupType), (''markupValue'', JNum (Fin markupValue))]"


definition markup_config :: "jsval list \<Rightarrow> jsval" where
  "markup_config cs = JObj [(''conditions'', JArr cs), (''conditionsType'', JStr ''any'')]"

definition counts_le :: "import_session \<Rightarrow> import_session \<Rightarrow> bool" where
  \<comment> \<open>neither counter of the second session state is below that of the first\<close>
  "counts_le a b =
     (importedProducts a \<le> importedProducts b \<and> failedProducts a \<le> failedProducts b)"

definition finalized :: "import_session \<Rightarrow> bool" where
  "finalized s = (status s = ''completed'' \<and> completedAt s \<noteq> None)"

definition below_counters :: "loop_state \<Rightarrow> import_session \<Rightarrow> bool" where
  \<comment> \<open>a progress write that does not exceed the counters of the loop\<close>
  "below_counters st w =
     (importedProducts w \<le> importedCount st \<and> failedProducts w \<le> failedCount st
      \<and> status w = ''processing'')"

definition writes_ok :: "loop_state \<Rightarrow> bool" where
  \<comment> \<open>the invariant of the loop on the session updates written so far\<close>
  "writes_ok st =
     (sorted_wrt counts_le (session_writes st) \<and> list_all (below_counters st) (session_writes st))"

definition counted_once :: "loop_state \<Rightarrow> loop_state \<Rightarrow> bool" where
  \<comment> \<open>one turn: one result more, and the counter that goes with it one higher\<close>
  "counted_once st st' =
     (\<exists>e. results st' = results st @ [e] \<and>
        (case e of
           Succeeded _ \<Rightarrow>
             importedCount st' = importedCount st + 1 \<and> failedCount st' = failedCount st
         | Failed _ _ \<Rightarrow>
             importedCount st' = importedCount st \<and> failedCount st' = failedCount st + 1))"

definition env_ok :: item_env where
  \<comment> \<open>every external call succeeds; no stored record matches; the product is created\<close>
  "env_ok =
     \<lparr>head_update_ok = True, by_sku = Returns None, by_title = Returns None,
      update_result = Throws ''not called'', create_result = Returns (Some ''gid://product/1''),
      images_result = Returns (), variants_result = Returns (),
      progress_update_ok = True, record_create_ok = True, catch_update_ok = True, now = 7\<rparr>"

definition env_create_throws :: item_env where
  \<comment> \<open>the create call throws, and the session update of the catch block rejects\<close>
  "env_create_throws =
     env_ok\<lparr>create_result := Throws ''fetch failed'', catch_update_ok := False\<rparr>"

definition session_running :: import_session where
  "session_running =
     \<lparr>status = ''running'', importedProducts = 0, failedProducts = 0, totalProducts = 2,
      completedAt = None\<rparr>"

definition db_running :: database where
  "db_running = \<lparr>sessions = [(''s1'', session_running)], products = []\<rparr>"

definition two_products :: "jsval list" where
  "two_products = [product_priced ''10.00'', product_priced ''20.00'']"

definition session_known :: "string \<Rightarrow> loop_state \<Rightarrow> bool" where
  \<comment> \<open>the store holds a session with this id\<close>
  "session_known sid st = (map_of (sessions (db st)) sid \<noteq> None)"

section \<open>Properties of the progress query\<close>

lemma latest_product_snoc:
  "latest_product (tbl @ [r]) sid =
     (if importSessionId r = sid \<and>
         (case latest_product tbl sid of None \<Rightarrow> True | Some b \<Rightarrow> createdAt b < createdAt r)
      then Some r else latest_product tbl sid)"
  by (simp add: latest_product_def)

lemma latest_product_none:
  "latest_product tbl sid = None \<longleftrightarrow> (\<forall>r \<in> set tbl. importSessionId r \<noteq> sid)"
proof (induction tbl rule: rev_induct)
  case Nil
  show ?case by (simp add: latest_product_def)
next
  case (snoc r tbl)
  show ?case
  proof (cases "latest_product tbl sid")
    case None
    with snoc show ?thesis by (auto simp: latest_product_snoc)
  next
    case (Some b)
    with snoc show ?thesis by (auto simp: latest_product_snoc)
  qed
qed

lemma latest_product_some:
  "latest_product tbl sid = Some r \<Longrightarrow>
     r \<in> set tbl \<and> importSessionId r = sid \<and>
     (\<forall>r' \<in> set tbl. importSessionId r' = sid \<longrightarrow> createdAt r' \<le> createdAt r)"
proof (induction tbl arbitrary: r rule: rev_induct)
  case Nil
  then show ?case by (simp add: latest_product_def)
next
  case (snoc x tbl)
  show ?case
  proof (cases "latest_product tbl sid")
    case None
    then have no: "\<forall>r' \<in> set tbl. importSessionId r' \<noteq> sid"
      by (simp add: latest_product_none)
    from snoc.prems None have "r = x" "importSessionId x = sid"
      by (auto simp: latest_product_snoc split: if_splits)
    with no show ?thesis by auto
  next
    case (Some b)
    note ih = snoc.IH [OF Some]
    show ?thesis
    proof (cases "importSessionId x = sid \<and> createdAt b < createdAt x")
      case True
      with snoc.prems Some have "r = x" by (simp add: latest_product_snoc)
      with True ih show ?thesis by fastforce
    next
      case False
      with snoc.prems Some have "r = b" by (auto simp: latest_product_snoc)
      with False ih show ?thesis by fastforce
    qed
  qed
qed

text \<open>
  Claim C8, as stated, fails: while the session is \<open>processing\<close> and no record of it
  exists yet, the query answers \<open>Processing...\<close>, which is neither the title of a record
  nor \<open>Import completed\<close>.
\<close>

theorem progress_before_first_record:
  "latest_product (products db_processing) ''s1'' = None \<and>
   getProgress db_processing (Some ''s1'')
     = Progress ''s1'' 0 0 3 ''Processing...'' ''processing''"
  by (simp add: getProgress_def currentProductName_def latest_product_def db_processing_def
      session_processing_def)

text \<open>
  Claim C8, amended: for every id of a stored session, \<open>currentProduct\<close> is, while the
  status is \<open>processing\<close>, the title of the session's record with the greatest
  \<open>createdAt\<close> when there is such a record and its title is not empty, and
  \<open>Processing...\<close> otherwise; in every other status it is \<open>Import completed\<close>.
\<close>

theorem progress_current_product:
  assumes "sid \<noteq> []" and "map_of (sessions d) sid = Some s"
  shows "currentProduct_of (getProgress d (Some sid)) =
           Some (if status s = ''processing''
                 then (case latest_product (products d) sid of
                         None \<Rightarrow> ''Processing...''
                       | Some r \<Rightarrow> if title r = [] then ''Processing...'' else title r)
                 else ''Import completed'')
         \<and> (latest_product (products d) sid = None
              \<longleftrightarrow> (\<forall>r \<in> set (products d). importSessionId r \<noteq> sid))
         \<and> (\<forall>r. latest_product (products d) sid = Some r \<longrightarrow>
                r \<in> set (products d) \<and> importSessionId r = sid \<and>
                (\<forall>r' \<in> set (products d). importSessionId r' = sid
                    \<longrightarrow> createdAt r' \<le> createdAt r))"
proof -
  have "currentProduct_of (getProgress d (Some sid)) =
          Some (currentProductName s (latest_product (products d) sid))"
    using assms by (simp add: getProgress_def currentProduct_of_def)
  moreover have "currentProductName s (latest_product (products d) sid) =
      (if status s = ''processing''
       then (case latest_product (products d) sid of
               None \<Rightarrow> ''Processing...''
             | Some r \<Rightarrow> if title r = [] then ''Processing...'' else title r)
       else ''Import completed'')"
    by (simp add: currentProductName_def split: option.split)
  ultimately show ?thesis
    using latest_product_none [of "products d" sid] latest_product_some [of "products d" sid]
    by (simp only:) blast
qed

theorem progress_current_product_witness:
  "''s1'' \<noteq> [] \<and> map_of (sessions db_two_records) ''s1'' = Some session_processing
   \<and> currentProduct_of (getProgress db_two_records (Some ''s1'')) = Some ''Mug''"
proof -
  have a: "''s1'' \<noteq> []" by simp
  have b: "map_of (sessions db_two_records) ''s1'' = Some session_processing"
    by (simp add: db_two_records_def)
  have c: "latest_product (products db_two_records) ''s1''
             = Some \<lparr>importSessionId = ''s1'', shopifyProductId = ''gid-2'', title = ''Mug'',
                     createdAt = 20\<rparr>"
    by (simp add: db_two_records_def latest_product_def)
  from progress_current_product [OF a b] c a b show ?thesis
    by (simp add: session_processing_def)
qed

section \<open>Properties of the source transformers\<close>

lemma bindE_Inr [simp]: "bindE (Inr x) f = f x"
  by (simp add: bindE_def)

lemma bindE_Inl [simp]: "bindE (Inl e) f = Inl e"
  by (simp add: bindE_def)

lemma token_title_a: "token_parts (JStr ''Title::A'') = Inr (Some (''Title'', ''A''))"
  by code_simp

lemma filter_tags_repeat:
  "filter_tags (replicate n (JStr ''Title::A'')) = Inr (replicate n (JStr ''A''))"
  by (induction n) (simp_all add: token_title_a)


lemma has_selected_values_repeat: "has_selected_values (filters_repeat n) \<longleftrightarrow> 0 < n"
  by (simp add: has_selected_values_def filters_repeat_def getq_def nullish_def fgt_def feq_def)

lemma selected_values_repeat:
  "iterate (getp (filters_repeat n) ''selectedValues'') = Inr (replicate n (JStr ''Title::A''))"
  by (simp add: filters_repeat_def iterate_def)

lemma with_filter_tags_repeat:
  "with_filter_tags (filters_repeat n) tags = Inr (tags @ replicate n (JStr ''A''))"
  by (cases "n = 0")
     (simp_all add: with_filter_tags_def has_selected_values_repeat selected_values_repeat
        filter_tags_repeat)

lemma row_a_matches: "value_matches (JObj [(''Title'', JStr ''A'')]) ''Title'' ''A'' = Inr True"
  by code_simp

lemma select_indices_row_a:
  "sel = [] \<or> sel = [0] \<Longrightarrow>
   select_indices (replicate n (JStr ''Title::A'')) [JObj [(''Title'', JStr ''A'')]] sel
     = Inr (if n = 0 then sel else [0])"
proof (induction n arbitrary: sel)
  case 0
  show ?case by simp
next
  case (Suc n)
  from Suc.prems have add: "set_add sel 0 = [0]"
    by (auto simp: set_add_def)
  show ?case
    using Suc.IH [of "[0]"] by (simp add: token_title_a row_a_matches add)
qed

lemma csv_repeat_products:
  assumes "0 < n"
  shows "map_sum id (map tags_of) (processCsvData csv_one_row (filters_repeat n) JNull)
           = Inr [replicate n (JStr ''A'')]"
proof -
  have sel: "selected_row_indices (filters_repeat n) [JObj [(''Title'', JStr ''A'')]] = Inr [0]"
    using assms select_indices_row_a [of "[]" n]
    by (simp add: selected_row_indices_def has_selected_values_repeat selected_values_repeat)
  show ?thesis
    by (simp add: processCsvData_def csv_one_row_def getq_def nullish_def sel nth_or_undef_def
        csv_product_def csv_tags_def with_filter_tags_repeat tags_of_def)
qed

text \<open>
  Claim C6 at the failing input: one CSV row and 300 selector tokens that match it.  The
  product that \<open>processCsvData\<close> makes of the row carries all 300 filter tags; the cap
  of \<open>limitTagsArray\<close> is applied by \<open>fetchApiData\<close> only.
\<close>

theorem csv_tags_exceed_cap:
  "map_sum id (map (\<lambda>p. length (tags_of p)))
     (processCsvData csv_one_row (filters_repeat 300) JNull) = Inr [300]"
proof -
  have "map_sum id (map tags_of) (processCsvData csv_one_row (filters_repeat 300) JNull)
          = Inr [replicate 300 (JStr ''A'')]"
    by (rule csv_repeat_products) simp
  then show ?thesis
    by (cases "processCsvData csv_one_row (filters_repeat 300) JNull") auto
qed










section \<open>The order of the rows selected from a CSV\<close>

lemma first_occurrences_snoc:
  "first_occurrences (ys @ [x]) = set_add (first_occurrences ys) x"
  by (simp add: first_occurrences_def set_add_def)

lemma foldl_set_add:
  "foldl set_add (first_occurrences ys) xs = first_occurrences (ys @ xs)"
proof (induction xs arbitrary: ys)
  case Nil
  show ?case by simp
next
  case (Cons x xs)
  have "foldl set_add (first_occurrences ys) (x # xs)
          = foldl set_add (first_occurrences (ys @ [x])) xs"
    by (simp add: first_occurrences_snoc)
  also have "\<dots> = first_occurrences ((ys @ [x]) @ xs)"
    by (rule Cons.IH)
  finally show ?case by simp
qed

lemma matching_rows_from_Cons:
  "matching_rows_from i (row # rows) kv =
     (if value_matches row (fst kv) (snd kv) = Inr True then [i] else [])
     @ matching_rows_from (Suc i) rows kv"
proof -
  have "i < Suc (i + length rows)" by simp
  then have "[i ..< Suc (i + length rows)] = i # [Suc i ..< Suc (i + length rows)]"
    by (rule upt_conv_Cons)
  then show ?thesis
    by (simp add: matching_rows_from_def del: upt_Suc)
qed

lemma scan_rows_foldl:
  "scan_rows key val i rows sel = Inr sel' \<Longrightarrow>
     sel' = foldl set_add sel (matching_rows_from i rows (key, val))"
proof (induction rows arbitrary: i sel)
  case Nil
  then show ?case by (simp add: matching_rows_from_def)
next
  case (Cons row rows)
  from Cons.prems obtain m where m: "value_matches row key val = Inr m"
    by (cases "value_matches row key val") auto
  with Cons.prems have
    "scan_rows key val (Suc i) rows (if m then set_add sel i else sel) = Inr sel'"
    by simp
  from Cons.IH [OF this] m show ?case
    by (simp add: matching_rows_from_Cons)
qed

lemma select_indices_first_occurrences:
  "select_indices tokens rows (first_occurrences ys) = Inr sel \<Longrightarrow>
     sel = first_occurrences (ys @ concat (map (matching_rows rows) (valid_tokens tokens)))"
proof (induction tokens arbitrary: ys)
  case Nil
  then show ?case by (simp add: valid_tokens_def)
next
  case (Cons token rest)
  from Cons.prems obtain kv where kv: "token_parts token = Inr kv"
    by (cases "token_parts token") auto
  show ?case
  proof (cases kv)
    case None
    with Cons.prems kv have "select_indices rest rows (first_occurrences ys) = Inr sel"
      by simp
    from Cons.IH [OF this] kv None show ?thesis
      by (simp add: valid_tokens_def)
  next
    case (Some pr)
    obtain key val where pr: "pr = (key, val)" by (cases pr)
    from Cons.prems kv Some pr obtain sel1 where
      s1: "scan_rows key val 0 rows (first_occurrences ys) = Inr sel1" and
      s2: "select_indices rest rows sel1 = Inr sel"
      by (cases "scan_rows key val 0 rows (first_occurrences ys)") auto
    from scan_rows_foldl [OF s1]
    have "sel1 = first_occurrences (ys @ matching_rows rows (key, val))"
      by (simp add: foldl_set_add matching_rows_def)
    with s2 have "select_indices rest rows
        (first_occurrences (ys @ matching_rows rows (key, val))) = Inr sel"
      by simp
    from Cons.IH [OF this] kv Some pr show ?thesis
      by (simp add: valid_tokens_def)
  qed
qed

lemma matching_rows_sorted:
  "sorted (matching_rows rows kv) \<and> distinct (matching_rows rows kv)
   \<and> (\<forall>i \<in> set (matching_rows rows kv). i < length rows)"
proof -
  let ?zs = "zip [0 ..< 0 + length rows] rows"
  have fst: "map fst ?zs = [0 ..< length rows]" by simp
  have "sorted (map fst ?zs)" and "distinct (map fst ?zs)"
    unfolding fst by simp_all
  then have "sorted (matching_rows rows kv)" and "distinct (matching_rows rows kv)"
    unfolding matching_rows_def matching_rows_from_def
    by (auto intro: sorted_filter distinct_map_filter)
  moreover have "\<forall>i \<in> set (matching_rows rows kv). i < length rows"
    unfolding matching_rows_def matching_rows_from_def
    by (auto dest: set_zip_leftD)
  ultimately show ?thesis by simp
qed

lemma first_occurrences_distinct:
  assumes "distinct xs"
  shows "first_occurrences xs = xs"
proof -
  from assms have "distinct (rev xs)" by simp
  then have "remdups (rev xs) = rev xs" by (rule distinct_remdups_id)
  then show ?thesis by (simp only: first_occurrences_def rev_rev_ident)
qed

text \<open>
  Claim C7, as stated, fails: two tokens that match the rows in the opposite order give
  the rows in token order, the second row first.
\<close>

theorem csv_rows_in_token_order:
  "map_sum id (map (\<lambda>p. getp p ''title''))
     (processCsvData (JObj [(''rows'', JArr csv_two_rows)]) filters_blue_red JNull)
   = Inr [JStr ''B'', JStr ''A'']"
  by code_simp

text \<open>
  Claim C7, amended: for every CSV row set and every list of selector tokens with which
  \<open>processCsvData\<close> does not throw, the selected rows appear in the output in the order
  in which they are first selected: token after token in the order of the list, for one
  token by ascending row index, a row selected by an earlier token not being repeated.
  With at most one valid token this is the original record order.
\<close>

theorem csv_selection_order:
  assumes "has_selected_values importFilters"
    and "iterate (getp importFilters ''selectedValues'') = Inr tokens"
    and "selected_row_indices importFilters rows = Inr sel"
  shows "sel = first_occurrences (concat (map (matching_rows rows) (valid_tokens tokens)))
         \<and> distinct sel \<and> (\<forall>i \<in> set sel. i < length rows)
         \<and> (length (valid_tokens tokens) \<le> 1 \<longrightarrow> sorted sel)
         \<and> processCsvData (JObj [(''rows'', JArr rows)]) importFilters keyMappings
             = csv_products importFilters 0 (map (\<lambda>i. rows ! i) sel)"
proof -
  let ?ms = "concat (map (matching_rows rows) (valid_tokens tokens))"
  from assms have "select_indices tokens rows (first_occurrences []) = Inr sel"
    by (simp add: selected_row_indices_def first_occurrences_def)
  from select_indices_first_occurrences [OF this]
  have sel: "sel = first_occurrences ?ms" by simp
  have d: "distinct sel"
    unfolding sel first_occurrences_def by simp
  have "set sel = set ?ms"
    unfolding sel first_occurrences_def by simp
  then have b: "\<forall>i \<in> set sel. i < length rows"
    using matching_rows_sorted by auto
  have s: "length (valid_tokens tokens) \<le> 1 \<longrightarrow> sorted sel"
  proof
    assume "length (valid_tokens tokens) \<le> 1"
    then consider "valid_tokens tokens = []" | kv where "valid_tokens tokens = [kv]"
      by (cases "valid_tokens tokens"; cases "tl (valid_tokens tokens)") auto
    then show "sorted sel"
    proof cases
      case 1
      then show ?thesis by (simp add: sel first_occurrences_def)
    next
      case 2
      then have "sel = matching_rows rows kv"
        using matching_rows_sorted [of rows kv]
        by (simp add: sel first_occurrences_distinct)
      then show ?thesis using matching_rows_sorted [of rows kv] by simp
    qed
  qed
  have m: "map (nth_or_undef rows) sel = map (\<lambda>i. rows ! i) sel"
    using b by (simp add: nth_or_undef_def)
  have "processCsvData (JObj [(''rows'', JArr rows)]) importFilters keyMappings
          = csv_products importFilters 0 (map (nth_or_undef rows) sel)"
    using assms(3) by (simp add: processCsvData_def getq_def nullish_def)
  then have "processCsvData (JObj [(''rows'', JArr rows)]) importFilters keyMappings
               = csv_products importFilters 0 (map (\<lambda>i. rows ! i) sel)"
    by (simp only: m)
  with sel d b s show ?thesis by blast
qed

theorem csv_selection_order_witness:
  "has_selected_values filters_blue_red
   \<and> iterate (getp filters_blue_red ''selectedValues'')
       = Inr [JStr ''Color::blue'', JStr ''Color::red'']
   \<and> selected_row_indices filters_blue_red csv_two_rows = Inr [1, 0]
   \<and> [1, 0] = first_occurrences (concat (map (matching_rows csv_two_rows)
                 (valid_tokens [JStr ''Color::blue'', JStr ''Color::red''])))"
proof -
  have a: "has_selected_values filters_blue_red" by code_simp
  have b: "iterate (getp filters_blue_red ''selectedValues'')
             = Inr [JStr ''Color::blue'', JStr ''Color::red'']"
    by code_simp
  have c: "selected_row_indices filters_blue_red csv_two_rows = Inr [1, 0]"
    by code_simp
  from csv_selection_order [OF a b c] a b c show ?thesis by simp
qed

section \<open>\<open>parseFloat\<close> ignores surrounding white space\<close>

lemma ws_not_numeric:
  assumes "is_ws c"
  shows "\<not> is_digit c" and "c \<noteq> CHR ''.''" and "c \<noteq> CHR ''e''" and "c \<noteq> CHR ''E''"
    and "c \<noteq> CHR ''-''" and "c \<noteq> CHR ''+''" and "c \<notin> set ''Infinity''"
  using assms by (auto simp: is_ws_def is_digit_def)

lemma takeWhile_digit_ws:
  assumes "w = [] \<or> is_ws (hd w)"
  shows "takeWhile is_digit (u @ w) = takeWhile is_digit u"
    and "dropWhile is_digit (u @ w) = dropWhile is_digit u @ w"
proof -
  have t: "takeWhile is_digit w = []" and d: "dropWhile is_digit w = w"
    using assms ws_not_numeric(1) by (cases w; auto)+
  show "takeWhile is_digit (u @ w) = takeWhile is_digit u"
    by (induction u) (simp_all add: t)
  show "dropWhile is_digit (u @ w) = dropWhile is_digit u @ w"
    by (induction u) (simp_all add: d)
qed

lemma scan_exponent_ws:
  assumes "w = [] \<or> is_ws (hd w)"
  shows "scan_exponent (r @ w) = (case scan_exponent r of (ex, r') \<Rightarrow> (ex, r' @ w))"
proof (cases r)
  case Nil
  show ?thesis
  proof (cases w)
    case Nil
    with \<open>r = []\<close> show ?thesis by (simp add: scan_exponent_def)
  next
    case (Cons c t)
    with assms have "is_ws c" by simp
    from ws_not_numeric(3,4) [OF this] Cons \<open>r = []\<close> show ?thesis
      by (simp add: scan_exponent_def)
  qed
next
  case (Cons c t)
  show ?thesis
  proof (cases "c = CHR ''e'' \<or> c = CHR ''E''")
    case False
    with Cons show ?thesis by (simp add: scan_exponent_def)
  next
    case True
    show ?thesis
    proof (cases t)
      case Nil
      have "takeWhile is_digit w = []"
        using takeWhile_digit_ws(1) [OF assms, of "[]"] by simp
      moreover have "w \<noteq> [] \<Longrightarrow> hd w \<noteq> CHR ''-'' \<and> hd w \<noteq> CHR ''+''"
        using assms ws_not_numeric(5,6) by auto
      ultimately show ?thesis using Cons True Nil
        by (auto simp: scan_exponent_def Let_def)
    next
      case t: (Cons c' t')
      let ?u = "if c' = CHR ''-'' \<or> c' = CHR ''+'' then t' else t"
      have u: "(if (t @ w) \<noteq> [] \<and> (hd (t @ w) = CHR ''-'' \<or> hd (t @ w) = CHR ''+'')
                then tl (t @ w) else t @ w) = ?u @ w"
        using t by simp
      have u': "(if t \<noteq> [] \<and> (hd t = CHR ''-'' \<or> hd t = CHR ''+'') then tl t else t) = ?u"
        using t by simp
      have n: "(t @ w \<noteq> [] \<and> hd (t @ w) = CHR ''-'') = (t \<noteq> [] \<and> hd t = CHR ''-'')"
        using t by simp
      have e1: "scan_exponent ((c # t) @ w) =
                  (if takeWhile is_digit (?u @ w) = [] then (0, (c # t) @ w)
                   else ((if t \<noteq> [] \<and> hd t = CHR ''-''
                          then - digits_val 10 (takeWhile is_digit (?u @ w))
                          else digits_val 10 (takeWhile is_digit (?u @ w))),
                         dropWhile is_digit (?u @ w)))"
        using True unfolding scan_exponent_def Let_def
        by (simp only: append_Cons list.case if_True u n)
      have e2: "scan_exponent (c # t) =
                  (if takeWhile is_digit ?u = [] then (0, c # t)
                   else ((if t \<noteq> [] \<and> hd t = CHR ''-''
                          then - digits_val 10 (takeWhile is_digit ?u)
                          else digits_val 10 (takeWhile is_digit ?u)),
                         dropWhile is_digit ?u))"
        using True unfolding scan_exponent_def Let_def
        by (simp only: list.case if_True u')
      show ?thesis
        unfolding Cons e1 e2
        by (simp add: takeWhile_digit_ws [OF assms])
    qed
  qed
qed

lemma startsWith_infinity_ws:
  assumes "w = [] \<or> is_ws (hd w)"
  shows "startsWith (u @ w) ''Infinity'' = startsWith u ''Infinity''"
proof (cases "8 \<le> length u")
  case True
  then show ?thesis by (simp add: startsWith_def)
next
  case False
  then have short: "length u < 8" by simp
  then have "\<not> startsWith u ''Infinity''"
    by (auto simp: startsWith_def dest: arg_cong [where f = length])
  moreover have "\<not> startsWith (u @ w) ''Infinity''"
  proof
    have l: "length ''Infinity'' = 8" by simp
    assume "startsWith (u @ w) ''Infinity''"
    then have eq: "take 8 (u @ w) = ''Infinity''" unfolding startsWith_def l .
    then have "length (take 8 (u @ w)) = 8" by simp
    with short have wne: "w \<noteq> []" by auto
    with assms have ws: "is_ws (hd w)" by simp
    from short wne have "(u @ w) ! length u = hd w"
      by (simp add: nth_append hd_conv_nth)
    moreover from short have "take 8 (u @ w) ! length u = (u @ w) ! length u"
      by (rule nth_take)
    ultimately have "''Infinity'' ! length u = hd w" using eq by simp
    moreover from short have "''Infinity'' ! length u \<in> set ''Infinity''"
      by (intro nth_mem) simp
    ultimately show False using ws_not_numeric(7) [OF ws] by simp
  qed
  ultimately show ?thesis by simp
qed

lemma scan_unsigned_ws:
  assumes "w = [] \<or> is_ws (hd w)"
  shows "scan_unsigned (u @ w) = map_option (\<lambda>(v, r). (v, r @ w)) (scan_unsigned u)"
proof (cases "startsWith u ''Infinity''")
  case True
  then have "8 \<le> length u"
    by (auto simp: startsWith_def dest: arg_cong [where f = length])
  with True show ?thesis
    by (simp add: scan_unsigned_def startsWith_infinity_ws [OF assms])
next
  case False
  note ws = startsWith_infinity_ws [OF assms] takeWhile_digit_ws [OF assms]
  show ?thesis
  proof (cases "dropWhile is_digit u")
    case Nil
    have nw: "\<not> (w \<noteq> [] \<and> hd w = CHR ''.'')"
      using assms ws_not_numeric(2) by (cases w) auto
    have ew: "scan_exponent w = (0, w)"
      using scan_exponent_ws [OF assms, of "[]"] by (simp add: scan_exponent_def)
    have p0: "pow10 0 = 1" by (simp add: pow10_def)
    from nw have iw: "(if w \<noteq> [] \<and> hd w = CHR ''.'' then a else b) = b" for a b :: string
      by (rule if_not_P)
    have l: "scan_unsigned (u @ w) =
               (if takeWhile is_digit u = [] then None
                else Some (fl (of_int (digits_val 10 (takeWhile is_digit u))), w))"
      using False unfolding scan_unsigned_def Let_def ws Nil append_Nil iw
      by (simp add: ew p0)
    have r: "scan_unsigned u =
               (if takeWhile is_digit u = [] then None
                else Some (fl (of_int (digits_val 10 (takeWhile is_digit u))), []))"
      using False unfolding scan_unsigned_def Let_def Nil
      by (simp add: scan_exponent_def p0)
    show ?thesis unfolding l r by simp
  next
    case (Cons c rs)
    have e1: "scan_exponent (c # rs @ w) =
                (case scan_exponent (c # rs) of (ex, r') \<Rightarrow> (ex, r' @ w))"
      using scan_exponent_ws [OF assms, of "c # rs"] by simp
    show ?thesis
    proof (cases "c = CHR ''.''")
      case True
      have l: "scan_unsigned (u @ w) =
                 (if takeWhile is_digit u = [] \<and> takeWhile is_digit rs = [] then None
                  else (case scan_exponent (dropWhile is_digit rs @ w) of (ex, r3) \<Rightarrow>
                    Some (fl (of_int (digits_val 10 (takeWhile is_digit u @ takeWhile is_digit rs))
                              * pow10 (ex - int (length (takeWhile is_digit rs)))), r3)))"
        using \<open>\<not> startsWith u ''Infinity''\<close> True
        unfolding scan_unsigned_def Let_def ws Cons
        by (simp add: ws)
      have r: "scan_unsigned u =
                 (if takeWhile is_digit u = [] \<and> takeWhile is_digit rs = [] then None
                  else (case scan_exponent (dropWhile is_digit rs) of (ex, r3) \<Rightarrow>
                    Some (fl (of_int (digits_val 10 (takeWhile is_digit u @ takeWhile is_digit rs))
                              * pow10 (ex - int (length (takeWhile is_digit rs)))), r3)))"
        using \<open>\<not> startsWith u ''Infinity''\<close> True
        unfolding scan_unsigned_def Let_def Cons
        by simp
      show ?thesis unfolding l r scan_exponent_ws [OF assms]
        by (simp split: prod.splits)
    next
      case nodot: False
      have l: "scan_unsigned (u @ w) =
                 (if takeWhile is_digit u = [] then None
                  else (case scan_exponent (c # rs @ w) of (ex, r3) \<Rightarrow>
                    Some (fl (of_int (digits_val 10 (takeWhile is_digit u)) * pow10 ex), r3)))"
        using \<open>\<not> startsWith u ''Infinity''\<close> nodot
        unfolding scan_unsigned_def Let_def ws Cons
        by simp
      have r: "scan_unsigned u =
                 (if takeWhile is_digit u = [] then None
                  else (case scan_exponent (c # rs) of (ex, r3) \<Rightarrow>
                    Some (fl (of_int (digits_val 10 (takeWhile is_digit u)) * pow10 ex), r3)))"
        using \<open>\<not> startsWith u ''Infinity''\<close> nodot
        unfolding scan_unsigned_def Let_def Cons
        by simp
      show ?thesis unfolding l r e1
        by (simp split: prod.splits)
    qed
  qed
qed

lemma scan_unsigned_only_ws:
  assumes "is_ws c"
  shows "scan_unsigned (c # t) = None"
proof -
  from ws_not_numeric(7) [OF assms] have "c \<noteq> CHR ''I''" by auto
  then have "\<not> startsWith (c # t) ''Infinity''" by (simp add: startsWith_def)
  with ws_not_numeric(1,2) [OF assms] show ?thesis
    by (simp add: scan_unsigned_def Let_def)
qed

lemma scan_signed_ws:
  assumes "w = [] \<or> is_ws (hd w)"
  shows "scan_signed (u @ w) = map_option (\<lambda>(v, r). (v, r @ w)) (scan_signed u)"
proof (cases u)
  case Nil
  show ?thesis
  proof (cases w)
    case Nil
    with \<open>u = []\<close> show ?thesis by (simp add: scan_signed_def)
  next
    case (Cons c t)
    with assms have ws: "is_ws c" by simp
    from ws_not_numeric(5,6) [OF ws] scan_unsigned_only_ws [OF ws] Cons \<open>u = []\<close>
    show ?thesis by (simp add: scan_signed_def)
  qed
next
  case (Cons c t)
  have a: "scan_unsigned (t @ w) = map_option (\<lambda>(v, r). (v, r @ w)) (scan_unsigned t)"
    by (rule scan_unsigned_ws [OF assms])
  have b: "scan_unsigned ((c # t) @ w) = map_option (\<lambda>(v, r). (v, r @ w)) (scan_unsigned (c # t))"
    by (rule scan_unsigned_ws [OF assms])
  show ?thesis
  proof (cases "c = CHR ''-''")
    case True
    with Cons a show ?thesis
      by (cases "scan_unsigned t") (auto simp: scan_signed_def)
  next
    case False
    with Cons a b show ?thesis
      by (cases "c = CHR ''+''") (simp_all add: scan_signed_def)
  qed
qed

lemma trim_decompose:
  "\<exists>w. dropWhile is_ws s = trim s @ w \<and> list_all is_ws w"
proof -
  let ?t = "dropWhile is_ws s"
  have "rev (dropWhile is_ws (rev ?t)) @ rev (takeWhile is_ws (rev ?t)) =
          rev (takeWhile is_ws (rev ?t) @ dropWhile is_ws (rev ?t))"
    by (simp only: rev_append)
  also have "\<dots> = ?t"
    by (simp only: takeWhile_dropWhile_id rev_rev_ident)
  finally have "?t = trim s @ rev (takeWhile is_ws (rev ?t))"
    by (simp only: trim_def trimStart_def)
  moreover have "list_all is_ws (rev (takeWhile is_ws (rev ?t)))"
    by (auto simp: list_all_iff dest: set_takeWhileD)
  ultimately show ?thesis by blast
qed

lemma trimStart_trim: "trimStart (trim s) = trim s"
proof (cases "trim s")
  case Nil
  then show ?thesis by (simp add: trimStart_def)
next
  case (Cons c t)
  from trim_decompose [of s] obtain w where d: "dropWhile is_ws s = trim s @ w" by blast
  with Cons have "hd (dropWhile is_ws s) = c" and "dropWhile is_ws s \<noteq> []" by simp_all
  then have "\<not> is_ws c" using hd_dropWhile [of is_ws s] by auto
  with Cons show ?thesis by (simp add: trimStart_def)
qed

lemma parseFloat_str_trim: "parseFloat_str (trim s) = parseFloat_str s"
proof -
  from trim_decompose [of s] obtain w where
    d: "dropWhile is_ws s = trim s @ w" and w: "list_all is_ws w"
    by blast
  from w have "w = [] \<or> is_ws (hd w)" by (cases w) simp_all
  from scan_signed_ws [OF this, of "trim s"]
  have "scan_signed (trimStart s) = map_option (\<lambda>(v, r). (v, r @ w)) (scan_signed (trim s))"
    by (simp add: trimStart_def d)
  then show ?thesis
    by (cases "scan_signed (trim s)") (auto simp: parseFloat_str_def trimStart_trim)
qed

section \<open>The \<open>between\<close> operator\<close>

lemma split_go_no_separator:
  "c \<notin> set s \<Longrightarrow> split_go [c] 0 acc s = [rev acc @ s]"
  by (induction s arbitrary: acc) (auto simp: startsWith_def)

lemma split_go_first_separator:
  "c \<notin> set a \<Longrightarrow> split_go [c] 0 acc (a @ c # b) = (rev acc @ a) # split_go [c] 0 [] b"
  by (induction a arbitrary: acc) (auto simp: startsWith_def)

lemma dash_decompose:
  assumes "CHR ''-'' \<in> set s"
  shows "s = first_piece s @ CHR ''-'' # tl (dropWhile (\<lambda>c. c \<noteq> CHR ''-'') s)"
proof -
  let ?d = "dropWhile (\<lambda>c. c \<noteq> CHR ''-'') s"
  from assms have ne: "?d \<noteq> []" by auto
  then have "hd ?d = CHR ''-''" using hd_dropWhile [of "\<lambda>c. c \<noteq> CHR ''-''" s] by simp
  with ne have "?d = CHR ''-'' # tl ?d" by (cases ?d) simp_all
  moreover have "s = takeWhile (\<lambda>c. c \<noteq> CHR ''-'') s @ ?d" by simp
  ultimately show ?thesis unfolding first_piece_def by metis
qed

lemma first_piece_no_dash: "CHR ''-'' \<notin> set (first_piece s)"
  by (auto simp: first_piece_def dest: set_takeWhileD)

lemma js_split_no_dash:
  "CHR ''-'' \<notin> set s \<Longrightarrow> js_split s ''-'' = [s]"
  using split_go_no_separator [of "CHR ''-''" s "[]"] by (simp add: js_split_def)

lemma js_split_dash:
  assumes "CHR ''-'' \<in> set s"
  shows "js_split s ''-'' =
           first_piece s # js_split (tl (dropWhile (\<lambda>c. c \<noteq> CHR ''-'') s)) ''-''"
proof -
  let ?b = "tl (dropWhile (\<lambda>c. c \<noteq> CHR ''-'') s)"
  have "split_go ''-'' 0 [] (first_piece s @ CHR ''-'' # ?b) = first_piece s # split_go ''-'' 0 [] ?b"
    using split_go_first_separator [OF first_piece_no_dash, where acc = "[]" and b = ?b and s1 = s]
    by simp
  with dash_decompose [OF assms] show ?thesis by (simp add: js_split_def)
qed

lemma js_split_first: "\<exists>ps. js_split s ''-'' = first_piece s # ps"
proof (cases "CHR ''-'' \<in> set s")
  case True
  from js_split_dash [OF this] show ?thesis by blast
next
  case False
  then have "first_piece s = s" by (auto simp: first_piece_def)
  with js_split_no_dash [OF False] show ?thesis by simp
qed

lemma between_bounds_pieces:
  "between_bounds cv =
     (if CHR ''-'' \<in> set cv
      then (Number_str (first_piece cv), Some (Number_str (second_piece cv)))
      else (Number_str cv, None))"
proof (cases "CHR ''-'' \<in> set cv")
  case True
  from js_split_first [of "tl (dropWhile (\<lambda>c. c \<noteq> CHR ''-'') cv)"] obtain ps where
    "js_split (tl (dropWhile (\<lambda>c. c \<noteq> CHR ''-'') cv)) ''-'' = second_piece cv # ps"
    unfolding second_piece_def by blast
  with js_split_dash [OF True] True show ?thesis
    by (simp add: between_bounds_def)
next
  case False
  with js_split_no_dash [OF False] show ?thesis
    by (simp add: between_bounds_def)
qed

lemma parseFloat_nullish: "nullish v \<Longrightarrow> parseFloat v = NaN"
proof -
  have "parseFloat JUndef = NaN" "parseFloat JNull = NaN" by code_simp+
  then show "nullish v \<Longrightarrow> parseFloat v = NaN" by (auto simp: nullish_def)
qed

lemma fge_NaN: "\<not> fge NaN x"
  by (cases x) (simp_all add: fge_def)

text \<open>
  Claim C3, as stated, fails for a condition value whose minimum is written with a
  minus sign: \<open>split('-')\<close> cuts \<open>-5-10\<close> into an empty piece, \<open>5\<close> and \<open>10\<close>, so the
  bounds the code compares with are 0 and 5.  A price of 7 lies between -5 and 10, and
  the operator is false.
\<close>

theorem between_negative_min:
  "checkCondition (product_priced ''7'') (price_between ''-5-10'') = Inr False
   \<and> fge (parseFloat (JStr ''7'')) (Number_str ''-5'')
   \<and> fle (parseFloat (JStr ''7'')) (Number_str ''10'')
   \<and> between_bounds ''-5-10'' = (Fin 0, Some (Fin 5))"
  by code_simp

text \<open>
  Claim C3, amended: for a resolved value that is not an array, the operator \<open>between\<close>
  is true iff the trimmed condition value has a dash, the number parsed from the resolved
  value is at least \<open>min\<close>, and \<open>max\<close> is 0 or the number is at most \<open>max\<close>; \<open>min\<close> is
  \<open>Number\<close> of the text before the first dash and \<open>max\<close> is \<open>Number\<close> of the text between
  the first dash and the second one, or the end.  The code parses the resolved value
  after trimming it, which \<open>parseFloat\<close> does not see.
\<close>

theorem between_min_max:
  assumes "\<not> nullish product" and "\<not> nullish condition"
    and "getp condition ''operator'' = JStr ''between''"
    and "resolve_value product (js_or (getp condition ''field'') (getp condition ''attribute''))
           = Inr resolved"
    and "\<not> isArray resolved"
  shows "checkCondition product condition =
           Inr (CHR ''-'' \<in> set (trim (toStr (getp condition ''value'')))
                \<and> fge (parseFloat resolved)
                      (Number_str (first_piece (trim (toStr (getp condition ''value'')))))
                \<and> (feq (Number_str (second_piece (trim (toStr (getp condition ''value''))))) (Fin 0)
                    \<or> fle (parseFloat resolved)
                          (Number_str (second_piece (trim (toStr (getp condition ''value'')))))))"
proof (cases "nullish resolved")
  case True
  with assms(1-4) have "checkCondition product condition = Inr False"
    by (simp add: checkCondition_def Let_def)
  with parseFloat_nullish [OF True] fge_NaN show ?thesis by simp
next
  case False
  let ?cv = "trim (toStr (getp condition ''value''))"
  have "compare_plain resolved (JStr ''between'') (getp condition ''value'')
          = between (parseFloat resolved) (between_bounds ?cv)"
    by (simp add: compare_plain_def Let_def parseFloat_def parseFloat_str_trim)
  then have "checkCondition product condition
          = Inr (between (parseFloat resolved) (between_bounds ?cv))"
    using assms False by (cases resolved) (simp_all add: checkCondition_def Let_def isArray_def)
  then show ?thesis
    by (simp add: between_def between_bounds_pieces)
qed

lemma resolve_price:
  "resolve_value (product_priced p) (js_or (getp (price_between r) ''field'')
      (getp (price_between r) ''attribute'')) = Inr (if p = [] then JUndef else JStr p)"
  by (simp add: product_priced_def price_between_def resolve_value_def js_or_def
      nested_lookup_def startsWith_def variant_override_def first_variant_field_def
      is_tags_field_def get_def nullish_def index_of_key_def is_digit_def digits_val_def
      digit_val_def nth_or_undef_def fgt_def feq_def)

theorem between_min_max_witness:
  "checkCondition (product_priced ''75'') (price_between ''50-100'') = Inr True
   \<and> checkCondition (product_priced ''10'') (price_between ''50-100'') = Inr False
   \<and> checkCondition (product_priced ''9999'') (price_between ''50-0'') = Inr True
   \<and> checkCondition (product_priced ''3'') (price_between ''-5-10'') = Inr True
   \<and> checkCondition (product_priced ''75'') (price_between ''50'') = Inr False"
proof -
  have n: "\<not> nullish (product_priced p)" "\<not> nullish (price_between r)"
    "getp (price_between r) ''operator'' = JStr ''between''" for p r
    by (simp_all add: nullish_def product_priced_def price_between_def)
  have r: "resolve_value (product_priced ''75'') (js_or (getp (price_between r) ''field'')
      (getp (price_between r) ''attribute'')) = Inr (JStr ''75'')"
    "resolve_value (product_priced ''10'') (js_or (getp (price_between r) ''field'')
      (getp (price_between r) ''attribute'')) = Inr (JStr ''10'')"
    "resolve_value (product_priced ''9999'') (js_or (getp (price_between r) ''field'')
      (getp (price_between r) ''attribute'')) = Inr (JStr ''9999'')"
    "resolve_value (product_priced ''3'') (js_or (getp (price_between r) ''field'')
      (getp (price_between r) ''attribute'')) = Inr (JStr ''3'')" for r
    by (simp_all add: resolve_price)
  have s: "\<not> isArray (JStr x)" for x
    by (simp add: isArray_def)
  have v: "trim (toStr (getp (price_between ''50-100'') ''value'')) = ''50-100''"
    "trim (toStr (getp (price_between ''50-0'') ''value'')) = ''50-0''"
    "trim (toStr (getp (price_between ''-5-10'') ''value'')) = ''-5-10''"
    "trim (toStr (getp (price_between ''50'') ''value'')) = ''50''"
    by code_simp+
  have p: "first_piece ''50-100'' = ''50''" "second_piece ''50-100'' = ''100''"
    "first_piece ''50-0'' = ''50''" "second_piece ''50-0'' = ''0''"
    "first_piece ''-5-10'' = []" "second_piece ''-5-10'' = ''5''"
    by (simp_all add: first_piece_def second_piece_def)
  have e1: "fge (parseFloat (JStr ''75'')) (Number_str ''50'')
            \<and> fle (parseFloat (JStr ''75'')) (Number_str ''100'')"
    by code_simp
  have e2: "\<not> fge (parseFloat (JStr ''10'')) (Number_str ''50'')"
    by code_simp
  have e3: "fge (parseFloat (JStr ''9999'')) (Number_str ''50'')
            \<and> feq (Number_str ''0'') (Fin 0)"
    by code_simp
  have e4: "fge (parseFloat (JStr ''3'')) (Number_str [])
            \<and> fle (parseFloat (JStr ''3'')) (Number_str ''5'')"
    by code_simp
  from between_min_max [OF n(1) n(2) n(3) r(1) s, of "''50-100''"] e1
  have "checkCondition (product_priced ''75'') (price_between ''50-100'') = Inr True"
    by (simp add: v p)
  moreover
  from between_min_max [OF n(1) n(2) n(3) r(2) s, of "''50-100''"] e2
  have "checkCondition (product_priced ''10'') (price_between ''50-100'') = Inr False"
    by (simp add: v p)
  moreover
  from between_min_max [OF n(1) n(2) n(3) r(3) s, of "''50-0''"] e3
  have "checkCondition (product_priced ''9999'') (price_between ''50-0'') = Inr True"
    by (simp add: v p)
  moreover
  from between_min_max [OF n(1) n(2) n(3) r(4) s, of "''-5-10''"] e4
  have "checkCondition (product_priced ''3'') (price_between ''-5-10'') = Inr True"
    by (simp add: v p)
  moreover
  from between_min_max [OF n(1) n(2) n(3) r(1) s, of "''50''"]
  have "checkCondition (product_priced ''75'') (price_between ''50'') = Inr False"
    by (simp add: v)
  ultimately show ?thesis by simp
qed

section \<open>Properties of the markup engine\<close>

lemma markup_value_or:
  "markup_value c =
     parseFloat (if truthy (getp c ''markupValue'') then getp c ''markupValue''
                 else if truthy (getp c ''value'') then getp c ''value'' else JStr ''0'')"
  by (simp add: markup_value_def js_or_def)

lemma new_price_valid:
  "new_price (getp c ''markupType'') (markup_value c) (current_price product) =
     (if valid_markup c then Some (marked_up_price product c) else None)"
  by (auto simp: new_price_def valid_markup_def marked_up_price_def markup_type_percent_def
      markup_value_or)

lemma apply_condition_effective:
  assumes "checkCondition product c = Inr b"
  shows "apply_condition product c =
           (if effective product c
            then bindE (write_markup product (getp c ''markupType'') (markup_value c)
                          (marked_up_price product c)) (\<lambda>p'. Inr (Some p'))
            else Inr None)"
  using assms
  by (simp add: apply_condition_def effective_def Let_def new_price_valid)

lemma markup_loop_find:
  assumes "\<forall>c \<in> set cs. \<exists>b. checkCondition product c = Inr b"
  shows "markup_loop product cs =
           (case List.find (effective product) cs of
              None \<Rightarrow> Inr product
            | Some c \<Rightarrow> write_markup product (getp c ''markupType'') (markup_value c)
                          (marked_up_price product c))"
  using assms
proof (induction cs)
  case Nil
  show ?case by simp
next
  case (Cons c cs)
  from Cons.prems obtain b where b: "checkCondition product c = Inr b" by auto
  from Cons.prems have rest: "\<forall>c \<in> set cs. \<exists>b. checkCondition product c = Inr b" by simp
  show ?case
  proof (cases "effective product c")
    case True
    then show ?thesis
      by (cases "write_markup product (getp c ''markupType'') (markup_value c)
                   (marked_up_price product c)")
         (simp_all add: apply_condition_effective [OF b])
  next
    case False
    with Cons.IH [OF rest] show ?thesis
      by (simp add: apply_condition_effective [OF b])
  qed
qed

lemma conditions_length_truthy:
  assumes "getp markupConfig ''conditions'' = JArr cs"
  shows "truthy (getq (getq markupConfig ''conditions'') ''length'') \<longleftrightarrow> cs \<noteq> []"
proof -
  from assms have "\<not> nullish markupConfig"
    by (auto simp: nullish_def)
  with assms show ?thesis
    by (simp add: getq_def nullish_def)
qed

lemma applyMarkupRules_find:
  assumes "\<not> nullish product"
    and "getp markupConfig ''conditions'' = JArr cs"
    and "\<forall>c \<in> set cs. \<exists>b. checkCondition product c = Inr b"
    and "conditions_match product markupConfig cs = Inr True"
  shows "applyMarkupRules product markupConfig =
           (case List.find (effective product) cs of
              None \<Rightarrow> Inr product
            | Some c \<Rightarrow> write_markup product (getp c ''markupType'') (markup_value c)
                          (marked_up_price product c))"
proof (cases "cs = []")
  case True
  with assms(1,2) conditions_length_truthy [OF assms(2)] show ?thesis
    by (simp add: applyMarkupRules_def)
next
  case False
  have "applyMarkupRules product markupConfig = markup_loop product cs"
    using assms(1,2,4) False conditions_length_truthy [OF assms(2)]
    by (simp add: applyMarkupRules_def)
  then show ?thesis
    by (simp only: markup_loop_find [OF assms(3)])
qed




section \<open>The price written by a markup\<close>

lemma bindE_eq_Inr: "bindE m f = Inr y \<longleftrightarrow> (\<exists>x. m = Inr x \<and> f x = Inr y)"
  by (cases m) auto

lemma map_of_assoc_set:
  "map_of (assoc_set kvs k v) k' = (if k' = k then Some v else map_of kvs k')"
  by (induction kvs) auto

lemma index_of_key_length: "index_of_key ''length'' = None"
  by (simp add: index_of_key_def is_digit_def)

lemma getp_setp_same:
  assumes "setp ob k v = Inr ob'"
  shows "getp ob' k = v"
proof (cases ob)
  case (JObj kvs)
  with assms show ?thesis by (auto simp: map_of_assoc_set)
next
  case (JArr xs)
  with assms obtain i where i: "index_of_key k = Some i"
    and ob': "ob' = JArr ((xs @ replicate (Suc i - length xs) JUndef)[i := v])"
    by (auto split: option.splits)
  from i have "k \<noteq> ''length''" using index_of_key_length by auto
  moreover have "i < length xs + (Suc i - length xs)" by arith
  ultimately show ?thesis using i ob' by (simp add: nth_or_undef_def)
qed (use assms in auto)

lemma getp_setp_other:
  assumes "setp ob k v = Inr ob'" and "index_of_key k = None" and "k' \<noteq> k"
  shows "getp ob' k' = getp ob k'"
  using assms by (cases ob) (auto simp: map_of_assoc_set)

lemma markup_keys_no_index:
  "index_of_key ''variants'' = None" "index_of_key ''markupApplied'' = None"
  "index_of_key ''markupType'' = None" "index_of_key ''markupValue'' = None"
  by (simp_all add: index_of_key_def is_digit_def)

lemma write_markup_price:
  assumes "write_markup product t v np = Inr p'"
  shows "first_variant_price p' = JStr (toFixed2 np)"
proof -
  from assms obtain v0 v0' variants' p1 p2 p3 where
    s1: "setp v0 ''price'' (JStr (toFixed2 np)) = Inr v0'" and
    s2: "setp (getp product ''variants'') ''0'' v0' = Inr variants'" and
    s3: "setp product ''variants'' variants' = Inr p1" and
    s4: "setp p1 ''markupApplied'' (JBool True) = Inr p2" and
    s5: "setp p2 ''markupType''
           (JStr (if markup_type_percent t then ''percentage'' else ''fixed'')) = Inr p3" and
    s6: "setp p3 ''markupValue'' (JStr (numToStr v)) = Inr p'"
    by (auto simp: write_markup_def bindE_eq_Inr split: if_splits)
  have "getp p' ''variants'' = getp p3 ''variants''"
    by (rule getp_setp_other [OF s6]) (simp_all add: markup_keys_no_index)
  also have "\<dots> = getp p2 ''variants''"
    by (rule getp_setp_other [OF s5]) (simp_all add: markup_keys_no_index)
  also have "\<dots> = getp p1 ''variants''"
    by (rule getp_setp_other [OF s4]) (simp_all add: markup_keys_no_index)
  also have "\<dots> = variants'"
    by (rule getp_setp_same [OF s3])
  finally have "getp (getp p' ''variants'') ''0'' = v0'"
    using getp_setp_same [OF s2] by simp
  then show ?thesis
    using getp_setp_same [OF s1] by (simp add: first_variant_price_def)
qed

lemma write_markup_applied:
  assumes "write_markup product t v np = Inr p'"
  shows "getp p' ''markupApplied'' = JBool True"
proof -
  from assms obtain p1 p2 p3 where
    s4: "setp p1 ''markupApplied'' (JBool True) = Inr p2" and
    s5: "setp p2 ''markupType''
           (JStr (if markup_type_percent t then ''percentage'' else ''fixed'')) = Inr p3" and
    s6: "setp p3 ''markupValue'' (JStr (numToStr v)) = Inr p'"
    by (auto simp: write_markup_def bindE_eq_Inr split: if_splits)
  have "getp p' ''markupApplied'' = getp p3 ''markupApplied''"
    by (rule getp_setp_other [OF s6]) (simp_all add: markup_keys_no_index)
  also have "\<dots> = getp p2 ''markupApplied''"
    by (rule getp_setp_other [OF s5]) (simp_all add: markup_keys_no_index)
  also have "\<dots> = JBool True"
    by (rule getp_setp_same [OF s4])
  finally show ?thesis .
qed

lemma price_of_object:
  assumes "\<not> nullish (getp x ''price'')"
  shows "\<exists>kvs. x = JObj kvs"
proof -
  have "index_of_key ''price'' = None" by (simp add: index_of_key_def is_digit_def)
  with assms show ?thesis by (cases x) (simp_all add: nullish_def)
qed

lemma variants_of_object:
  assumes "getp x ''variants'' = JArr vs \<or> getp x ''variants'' = JObj kvs"
  shows "\<exists>pk. x = JObj pk"
proof -
  have "index_of_key ''variants'' = None" by (simp add: index_of_key_def is_digit_def)
  with assms show ?thesis by (cases x) auto
qed

lemma first_of_collection:
  assumes "getp x ''0'' = JObj kvs"
  shows "(\<exists>vs. x = JArr vs) \<or> (\<exists>pk. x = JObj pk)"
  using assms by (cases x) (auto split: option.splits if_splits)

lemma setp_first:
  assumes "(\<exists>vs. x = JArr vs) \<or> (\<exists>pk. x = JObj pk)"
  shows "\<exists>x'. setp x ''0'' v = Inr x' \<and> ((\<exists>vs. x' = JArr vs) \<or> (\<exists>pk. x' = JObj pk))"
proof -
  have "index_of_key ''0'' = Some 0"
    by (simp add: index_of_key_def is_digit_def digits_val_def digit_val_def)
  with assms show ?thesis by auto
qed

lemma write_markup_total:
  assumes "\<not> nullish (first_variant_price product)"
  shows "\<exists>p'. write_markup product t v np = Inr p'"
proof -
  let ?variants = "getp product ''variants''"
  let ?v0 = "getp ?variants ''0''"
  from assms price_of_object [of ?v0] obtain kvs where v0: "?v0 = JObj kvs"
    by (auto simp: first_variant_price_def)
  from first_of_collection [OF v0] have coll: "(\<exists>vs. ?variants = JArr vs) \<or> (\<exists>pk. ?variants = JObj pk)" .
  then have nn: "\<not> nullish ?variants" by (auto simp: nullish_def)
  from coll variants_of_object [of product] obtain pk where p: "product = JObj pk" by blast
  from setp_first [OF coll, of "JObj (assoc_set kvs ''price'' (JStr (toFixed2 np)))"]
  obtain variants' where
    s2: "setp ?variants ''0'' (JObj (assoc_set kvs ''price'' (JStr (toFixed2 np)))) = Inr variants'"
    by blast
  have g: "get ?variants ''0'' = Inr (JObj kvs)"
    using nn v0 by (simp add: get_def)
  show ?thesis
    unfolding write_markup_def g
    by (simp add: nullish_def s2) (simp add: p)
qed

lemma current_price_string:
  assumes "first_variant_price product = JStr s" and "s \<noteq> []"
  shows "current_price product = parseFloat_str s"
proof -
  let ?variants = "getp product ''variants''"
  let ?v0 = "getp ?variants ''0''"
  from assms(1) have p: "getp ?v0 ''price'' = JStr s" by (simp add: first_variant_price_def)
  then have "\<not> nullish ?v0" by (auto simp: nullish_def)
  moreover from this have "\<not> nullish ?variants" by (auto simp: nullish_def)
  ultimately have "getq (getq ?variants ''0'') ''price'' = JStr s"
    using p by (simp add: getq_def)
  with assms(2) show ?thesis
    by (simp add: current_price_def js_or_def parseFloat_def)
qed

lemma ten_percent_of_1999:
  assumes "first_variant_price product = JStr ''19.99''"
    and "markup_type_percent (getp c ''markupType'')" and "markup_value c = Fin 10"
  shows "toFixed2 (marked_up_price product c) = ''21.99''"
proof -
  have "toFixed2 (fmul (parseFloat_str ''19.99'') (fadd (Fin 1) (fdiv (Fin 10) (Fin 100))))
          = ''21.99''"
    by code_simp
  with assms(2,3) current_price_string [OF assms(1)] show ?thesis
    by (simp add: marked_up_price_def markup_type_percent_def)
qed

text \<open>
  Claim C2, as stated, fails in its last clause: the test that guards the write compares
  the new price before it is rounded.  On a price of \<open>1.00\<close> a percent markup of 0.5
  computes 1.005, in binary64 a number just below it, which differs from 1: the price is
  written back, rounded, as \<open>1.00\<close> again, and the product is marked \<open>markupApplied\<close>.
\<close>

theorem rounded_price_rewritten:
  "first_variant_price (product_priced ''1.00'') = JStr ''1.00''
   \<and> getp (product_priced ''1.00'') ''markupApplied'' = JUndef
   \<and> map_sum id (\<lambda>p. (first_variant_price p, getp p ''markupApplied'', getp p ''markupValue''))
        (applyMarkupRules (product_priced ''1.00'') (markup_config [markup_rule ''percent'' (1 / 2)]))
      = Inr (JStr ''1.00'', JBool True, JStr ''0.5'')"
  by code_simp

text \<open>
  Claim C2, amended: for every product whose first variant has a price and every markup
  configuration whose conditions match and evaluate without a throw, the markup applied
  is that of the first condition that is true, has a valid markup and computes a price
  that, before rounding, differs from the current price.  With the markup number \<open>v\<close>
  (parsed from \<open>markupValue\<close>, or from the condition's \<open>value\<close> when \<open>markupValue\<close> is
  falsy) the new price is \<open>price * (1 + v / 100)\<close> for the types percent and percentage
  and \<open>price + v\<close> for the type fixed; \<open>applyMarkupRules\<close> then returns the product with
  the first variant's price set to the new price printed with two fraction digits
  (\<open>toFixed(2)\<close>) and \<open>markupApplied\<close> set.  When there is no such condition it returns the
  product as it was given.  For every product whose first variant is priced \<open>19.99\<close> and
  every percent markup of 10 the new price is printed as \<open>21.99\<close>.
\<close>

theorem markup_price_written:
  assumes "\<not> nullish (first_variant_price product)"
    and "getp markupConfig ''conditions'' = JArr cs"
    and "\<forall>c \<in> set cs. \<exists>b. checkCondition product c = Inr b"
    and "conditions_match product markupConfig cs = Inr True"
  shows "(case List.find (effective product) cs of
            None \<Rightarrow> applyMarkupRules product markupConfig = Inr product
          | Some c \<Rightarrow>
              (\<exists>product'. applyMarkupRules product markupConfig = Inr product'
                 \<and> first_variant_price product' = JStr (toFixed2 (marked_up_price product c))
                 \<and> getp product' ''markupApplied'' = JBool True))
         \<and> (\<forall>c. first_variant_price product = JStr ''19.99''
                  \<and> markup_type_percent (getp c ''markupType'') \<and> markup_value c = Fin 10
                \<longrightarrow> toFixed2 (marked_up_price product c) = ''21.99'')"
proof -
  from assms(1) have nn: "\<not> nullish product"
    by (auto simp: first_variant_price_def nullish_def)
  note ap = applyMarkupRules_find [OF nn assms(2,3,4)]
  have written: "case List.find (effective product) cs of
            None \<Rightarrow> applyMarkupRules product markupConfig = Inr product
          | Some c \<Rightarrow>
              (\<exists>product'. applyMarkupRules product markupConfig = Inr product'
                 \<and> first_variant_price product' = JStr (toFixed2 (marked_up_price product c))
                 \<and> getp product' ''markupApplied'' = JBool True)"
  proof (cases "List.find (effective product) cs")
    case None
    with ap show ?thesis by simp
  next
    case (Some c)
    from write_markup_total [OF assms(1)] obtain p' where
      w: "write_markup product (getp c ''markupType'') (markup_value c)
            (marked_up_price product c) = Inr p'"
      by blast
    from ap Some w have "applyMarkupRules product markupConfig = Inr p'" by simp
    with write_markup_price [OF w] write_markup_applied [OF w] Some show ?thesis by simp
  qed
  with ten_percent_of_1999 [of product] show ?thesis by simp
qed

theorem markup_price_written_witness:
  "(\<exists>p'. applyMarkupRules (product_priced ''19.99'') (markup_config [markup_rule ''percent'' 10])
            = Inr p'
          \<and> first_variant_price p' = JStr ''21.99'' \<and> getp p' ''markupApplied'' = JBool True)
   \<and> (\<exists>p'. applyMarkupRules (product_priced ''10.00'') (markup_config [markup_rule ''fixed'' 5])
            = Inr p'
          \<and> first_variant_price p' = JStr ''15.00'' \<and> getp p' ''markupApplied'' = JBool True)
   \<and> applyMarkupRules (product_priced ''0.00'') (markup_config [markup_rule ''percent'' 10])
       = Inr (product_priced ''0.00'')"
proof -
  have n: "\<not> nullish (first_variant_price (product_priced ''19.99''))"
    "\<not> nullish (first_variant_price (product_priced ''10.00''))"
    "\<not> nullish (first_variant_price (product_priced ''0.00''))"
    by code_simp+
  have b: "getp (markup_config [c]) ''conditions'' = JArr [c]" for c
    by (simp add: markup_config_def)
  have k: "checkCondition (product_priced ''19.99'') (markup_rule ''percent'' 10) = Inr True"
    "checkCondition (product_priced ''10.00'') (markup_rule ''fixed'' 5) = Inr True"
    "checkCondition (product_priced ''0.00'') (markup_rule ''percent'' 10) = Inr True"
    by code_simp+
  have d: "\<forall>c \<in> set [c]. \<exists>b. checkCondition p c = Inr b"
    if "checkCondition p c = Inr True" for p c
    using that by auto
  have m: "conditions_match p (markup_config [c]) [c] = Inr True"
    if "checkCondition p c = Inr True" for p c
    using that by (simp add: conditions_match_def markup_config_def)
  have e: "effective (product_priced ''19.99'') (markup_rule ''percent'' 10)"
    "effective (product_priced ''10.00'') (markup_rule ''fixed'' 5)"
    "\<not> effective (product_priced ''0.00'') (markup_rule ''percent'' 10)"
    by code_simp+
  have num: "toFixed2 (marked_up_price (product_priced ''10.00'') (markup_rule ''fixed'' 5)) = ''15.00''"
    by code_simp
  have pc: "first_variant_price (product_priced ''19.99'') = JStr ''19.99''"
    "markup_type_percent (getp (markup_rule ''percent'' 10) ''markupType'')"
    "markup_value (markup_rule ''percent'' 10) = Fin 10"
    by code_simp+
  note first = markup_price_written [OF n(1) b d [OF k(1)] m [OF k(1)]]
  from first pc
  have g: "toFixed2 (marked_up_price (product_priced ''19.99'') (markup_rule ''percent'' 10))
             = ''21.99''"
    by blast
  from first e(1)
  have "\<exists>p'. applyMarkupRules (product_priced ''19.99'') (markup_config [markup_rule ''percent'' 10])
            = Inr p'
          \<and> first_variant_price p' = JStr ''21.99'' \<and> getp p' ''markupApplied'' = JBool True"
    by (auto simp: g)
  moreover
  from markup_price_written [OF n(2) b d [OF k(2)] m [OF k(2)]] e(2) num
  have "\<exists>p'. applyMarkupRules (product_priced ''10.00'') (markup_config [markup_rule ''fixed'' 5])
            = Inr p'
          \<and> first_variant_price p' = JStr ''15.00'' \<and> getp p' ''markupApplied'' = JBool True"
    by simp
  moreover
  from markup_price_written [OF n(3) b d [OF k(3)] m [OF k(3)]] e(3)
  have "applyMarkupRules (product_priced ''0.00'') (markup_config [markup_rule ''percent'' 10])
       = Inr (product_priced ''0.00'')"
    by simp
  ultimately show ?thesis by simp
qed

section \<open>Properties of the batch loop\<close>

lemma update_session_Some:
  assumes "update_session ok sid f st = Some st'"
  shows "\<exists>s. map_of (sessions (db st)) sid = Some s
           \<and> session_writes st' = session_writes st @ [f s]
           \<and> map_of (sessions (db st')) sid = Some (f s)
           \<and> importedCount st' = importedCount st \<and> failedCount st' = failedCount st
           \<and> results st' = results st"
  using assms
  by (auto simp: update_session_def map_of_assoc_set split: option.splits if_splits)

lemma writes_ok_snoc:
  assumes "writes_ok st"
    and "session_writes st' = session_writes st @ [w]"
    and "importedCount st' = importedCount st" and "failedCount st' = failedCount st"
    and "importedProducts w = importedCount st" and "failedProducts w = failedCount st"
    and "status w = ''processing''"
  shows "writes_ok st'"
  using assms
  by (auto simp: writes_ok_def below_counters_def counts_le_def sorted_wrt_append list_all_iff)

lemma writes_ok_progress:
  assumes "writes_ok st" and "update_session ok sid (progress_data st) st = Some st'"
  shows "writes_ok st'"
proof -
  from update_session_Some [OF assms(2)] obtain s where
    "session_writes st' = session_writes st @ [progress_data st s]"
    "importedCount st' = importedCount st" "failedCount st' = failedCount st"
    by blast
  with assms(1) show ?thesis
    by (rule writes_ok_snoc) (simp_all add: progress_data_def)
qed

lemma writes_ok_head:
  assumes "writes_ok st"
    and "update_session ok sid (\<lambda>s. (progress_data st s)\<lparr>totalProducts := n\<rparr>) st = Some st'"
  shows "writes_ok st'"
proof -
  from update_session_Some [OF assms(2)] obtain s where
    "session_writes st' = session_writes st @ [(progress_data st s)\<lparr>totalProducts := n\<rparr>]"
    "importedCount st' = importedCount st" "failedCount st' = failedCount st"
    by blast
  with assms(1) show ?thesis
    by (rule writes_ok_snoc) (simp_all add: progress_data_def)
qed

lemma writes_ok_counters:
  assumes "writes_ok st" and "session_writes st' = session_writes st"
    and "importedCount st \<le> importedCount st'" and "failedCount st \<le> failedCount st'"
  shows "writes_ok st'"
  using assms by (auto simp: writes_ok_def below_counters_def list_all_iff)

lemma guarded_update_step:
  "(writes_ok st \<longrightarrow> writes_ok (guarded_update ok sid st))
   \<and> importedCount (guarded_update ok sid st) = importedCount st
   \<and> failedCount (guarded_update ok sid st) = failedCount st
   \<and> results (guarded_update ok sid st) = results st"
proof (cases "update_session ok sid (progress_data st) st")
  case None
  then show ?thesis by (simp add: guarded_update_def)
next
  case (Some st')
  from writes_ok_progress [OF _ Some] update_session_Some [OF Some] Some
  show ?thesis by (auto simp: guarded_update_def)
qed

lemma store_record_step:
  "session_writes (store_record env sid productId p st) = session_writes st
   \<and> importedCount (store_record env sid productId p st) = importedCount st
   \<and> failedCount (store_record env sid productId p st) = failedCount st
   \<and> results (store_record env sid productId p st) = results st"
  by (cases "js_or (getp p ''title'') (JStr [])") (simp_all add: store_record_def)

lemma record_success_step:
  "(writes_ok st \<longrightarrow> writes_ok (record_success env sid productId p st))
   \<and> counted_once st (record_success env sid productId p st)"
proof -
  define st1 where "st1 = st\<lparr>importedCount := importedCount st + 1\<rparr>"
  define st2 where "st2 = guarded_update (progress_update_ok env) sid st1"
  define st3 where "st3 = store_record env sid productId p st2"
  have e: "record_success env sid productId p st
             = st3\<lparr>results := results st3 @ [Succeeded productId]\<rparr>"
    by (simp add: record_success_def Let_def st1_def st2_def st3_def)
  from guarded_update_step [where st = st1 and ok = "progress_update_ok env" and sid = sid]
  have ok2: "writes_ok st1 \<longrightarrow> writes_ok st2" and c2: "importedCount st2 = importedCount st + 1"
    "failedCount st2 = failedCount st" "results st2 = results st"
    by (simp_all add: st2_def st1_def)
  from store_record_step [where env = env and sid = sid and productId = productId and p = p and st = st2]
  have c3: "session_writes st3 = session_writes st2" "importedCount st3 = importedCount st2"
    "failedCount st3 = failedCount st2" "results st3 = results st2"
    by (simp_all add: st3_def)
  have "writes_ok st \<longrightarrow> writes_ok (st3\<lparr>results := results st3 @ [Succeeded productId]\<rparr>)"
  proof
    assume "writes_ok st"
    then have "writes_ok st1"
      by (rule writes_ok_counters) (simp_all add: st1_def)
    with ok2 have "writes_ok st2" by simp
    then show "writes_ok (st3\<lparr>results := results st3 @ [Succeeded productId]\<rparr>)"
      by (rule writes_ok_counters) (simp_all add: c3)
  qed
  moreover have "counted_once st (st3\<lparr>results := results st3 @ [Succeeded productId]\<rparr>)"
    using c2 c3 by (simp add: counted_once_def)
  ultimately show ?thesis by (simp only: e)
qed

lemma create_product_step:
  "case create_product env sid p productImages st of
     Inl (m, st') \<Rightarrow> st' = st
   | Inr st' \<Rightarrow> (writes_ok st \<longrightarrow> writes_ok st') \<and> counted_once st st'"
proof (cases "create_result env")
  case (Throws m)
  then show ?thesis by (simp add: create_product_def)
next
  case (Returns created)
  show ?thesis
  proof (cases created)
    case None
    let ?failed = "st\<lparr>failedCount := failedCount st + 1,
                       results := results st @ [Failed (getp p ''title'') ''Product creation failed'']\<rparr>"
    have "writes_ok st \<longrightarrow> writes_ok ?failed"
      by (auto intro: writes_ok_counters)
    moreover have "counted_once st ?failed" by (simp add: counted_once_def)
    ultimately show ?thesis using Returns None by (simp add: create_product_def)
  next
    case (Some productId)
    note s = record_success_step [where st = st and env = env and sid = sid and productId = productId and p = p]
    show ?thesis
    proof (cases "if productImages \<noteq> [] then images_result env else Returns ()")
      case (Throws m)
      with Returns Some show ?thesis by (simp add: create_product_def)
    next
      case img: (Returns u)
      show ?thesis
      proof (cases "truthy (getp p ''variants'')
                    \<and> fgt (toNumber (getp (getp p ''variants'') ''length'')) (Fin 0)")
        case False
        with Returns Some img s show ?thesis
          by (auto simp: create_product_def Let_def)
      next
        case True
        show ?thesis
        proof (cases "variant_inputs (getp p ''variants'')")
          case (Inl e)
          with Returns Some img True show ?thesis
            by (simp add: create_product_def Let_def)
        next
          case (Inr u')
          with Returns Some img True s show ?thesis
            by (cases "variants_result env") (simp_all add: create_product_def Let_def)
        qed
      qed
    qed
  qed
qed

lemma try_body_step:
  "case try_body env sid markupConfig importConfig productData st of
     Inl (m, st') \<Rightarrow> st' = st
   | Inr st' \<Rightarrow> (writes_ok st \<longrightarrow> writes_ok st') \<and> counted_once st st'"
proof (cases "applyMarkupRules productData markupConfig")
  case (Inl e)
  then show ?thesis by (simp add: try_body_def)
next
  case p0: (Inr p0)
  show ?thesis
  proof (cases "setp p0 ''status''
                  (JStr (if importConfig = JStr ''published'' then ''ACTIVE'' else ''DRAFT''))")
    case (Inl e)
    with p0 show ?thesis by (simp add: try_body_def)
  next
    case pp: (Inr pp)
    show ?thesis
    proof (cases "product_images pp")
      case (Inl e)
      with p0 pp show ?thesis by (simp add: try_body_def)
    next
      case im: (Inr imgs)
      define updated where "updated =
        (case checkProductInDatabase env
                (js_or (getq (getq (getp pp ''variants'') ''0'') ''sku'') (JStr []))
                (getp pp ''title'') of
           None \<Rightarrow> None
         | Some r \<Rightarrow>
             (if shopifyProductId r \<noteq> []
              then (case update_result env of
                      Returns productId \<Rightarrow> Some productId
                    | Throws _ \<Rightarrow> None)
              else None))"
      have e: "try_body env sid markupConfig importConfig productData st =
                 (case updated of
                    None \<Rightarrow> create_product env sid pp imgs st
                  | Some productId \<Rightarrow> Inr (record_success env sid productId pp st))"
        using p0 pp im by (simp add: try_body_def Let_def updated_def)
      show ?thesis
      proof (cases updated)
        case None
        with create_product_step [where env = env and sid = sid and p = pp and productImages = imgs and st = st] show ?thesis
          by (simp add: e)
      next
        case (Some productId)
        with record_success_step [where st = st and env = env and sid = sid and productId = productId and p = pp] show ?thesis
          by (simp add: e)
      qed
    qed
  qed
qed

lemma counted_once_from:
  assumes "counted_once st1 st2"
    and "importedCount st1 = importedCount st" and "failedCount st1 = failedCount st"
    and "results st1 = results st"
  shows "counted_once st st2"
  using assms by (auto simp: counted_once_def split: result_entry.splits)

lemma iteration_step:
  "case iteration env sid markupConfig importConfig n productData st of
     Inl (m, st') \<Rightarrow> (writes_ok st \<longrightarrow> writes_ok st') \<and> results st' = results st
   | Inr st' \<Rightarrow> (writes_ok st \<longrightarrow> writes_ok st') \<and> counted_once st st'"
proof (cases "nullish productData")
  case True
  then show ?thesis by (simp add: iteration_def)
next
  case False
  show ?thesis
  proof (cases "update_session (head_update_ok env) sid
                  (\<lambda>s. (progress_data st s)\<lparr>totalProducts := n\<rparr>) st")
    case None
    with False show ?thesis by (simp add: iteration_def)
  next
    case head: (Some st1)
    have ok1: "writes_ok st \<longrightarrow> writes_ok st1"
      using writes_ok_head [OF _ head] by blast
    from update_session_Some [OF head] have c1:
      "importedCount st1 = importedCount st" "failedCount st1 = failedCount st"
      "results st1 = results st"
      by auto
    show ?thesis
    proof (cases "try_body env sid markupConfig importConfig productData st1")
      case (Inr st2)
      with try_body_step [where env = env and sid = sid and markupConfig = markupConfig and importConfig = importConfig and productData = productData and st = st1]
      have "writes_ok st1 \<longrightarrow> writes_ok st2" "counted_once st1 st2" by simp_all
      with c1 ok1 have "(writes_ok st \<longrightarrow> writes_ok st2) \<and> counted_once st st2"
        by (auto intro: counted_once_from)
      with False head Inr show ?thesis by (simp add: iteration_def)
    next
      case (Inl a)
      obtain m st2 where a: "a = (m, st2)" by (cases a)
      with Inl try_body_step [where env = env and sid = sid and markupConfig = markupConfig and importConfig = importConfig and productData = productData and st = st1]
      have st2: "st2 = st1" by simp
      let ?st3 = "st1\<lparr>failedCount := failedCount st1 + 1\<rparr>"
      have ok3: "writes_ok st \<longrightarrow> writes_ok ?st3"
        using ok1 by (auto intro: writes_ok_counters)
      show ?thesis
      proof (cases "update_session (catch_update_ok env) sid (progress_data ?st3) ?st3")
        case None
        with False head Inl a st2 ok3 c1 show ?thesis
          by (simp add: iteration_def)
      next
        case (Some st4)
        have ok4: "writes_ok st \<longrightarrow> writes_ok st4"
          using ok3 writes_ok_progress [OF _ Some] by blast
        from update_session_Some [OF Some] have c4:
          "importedCount st4 = importedCount st" "failedCount st4 = failedCount st + 1"
          "results st4 = results st"
          using c1 by auto
        let ?e = "Failed (getp productData ''title'') (if m \<noteq> [] then m else ''Unknown error'')"
        have "writes_ok st \<longrightarrow> writes_ok (st4\<lparr>results := results st4 @ [?e]\<rparr>)"
          using ok4 by (auto intro: writes_ok_counters)
        moreover have "counted_once st (st4\<lparr>results := results st4 @ [?e]\<rparr>)"
          using c4 by (simp add: counted_once_def)
        ultimately show ?thesis
          using False head Inl a st2 Some
          by (simp add: iteration_def)
      qed
    qed
  qed
qed

lemma counted_once_sum:
  assumes "counted_once st st'"
  shows "importedCount st' + failedCount st' = importedCount st + failedCount st + 1
         \<and> length (results st') = length (results st) + 1"
proof -
  from assms obtain e where
    "results st' = results st @ [e]" and
    "case e of
       Succeeded _ \<Rightarrow>
         importedCount st' = importedCount st + 1 \<and> failedCount st' = failedCount st
     | Failed _ _ \<Rightarrow>
         importedCount st' = importedCount st \<and> failedCount st' = failedCount st + 1"
    unfolding counted_once_def by blast
  then show ?thesis by (cases e) simp_all
qed

lemma import_loop_step:
  "case import_loop envs sid markupConfig importConfig n i ps st of
     Inl (m, st') \<Rightarrow> writes_ok st \<longrightarrow> writes_ok st'
   | Inr st' \<Rightarrow> (writes_ok st \<longrightarrow> writes_ok st')
       \<and> importedCount st' + failedCount st'
           = importedCount st + failedCount st + length ps
       \<and> length (results st') = length (results st) + length ps"
proof (induction ps arbitrary: i st)
  case Nil
  then show ?case by simp
next
  case (Cons p ps)
  show ?case
  proof (cases "iteration (envs i) sid markupConfig importConfig n p st")
    case (Inl a)
    with iteration_step [where env = "envs i" and sid = sid and markupConfig = markupConfig and importConfig = importConfig and n = n and productData = p and st = st]
    show ?thesis by (cases a) simp
  next
    case (Inr st1)
    with iteration_step [where env = "envs i" and sid = sid and markupConfig = markupConfig and importConfig = importConfig and n = n and productData = p and st = st]
    have ok1: "writes_ok st \<longrightarrow> writes_ok st1" and c1: "counted_once st st1" by simp_all
    from Cons.IH [where i = "Suc i" and st = st1] counted_once_sum [OF c1] Inr ok1
    show ?thesis
      by (auto split: sum.splits)
  qed
qed

lemma writes_ok_initial: "writes_ok (initial_state d)"
  by (simp add: writes_ok_def initial_state_def)

section \<open>Runs that reach the response\<close>

lemma update_session_known:
  assumes "update_session ok sid f st = Some st'"
  shows "session_known sid st'"
  using update_session_Some [OF assms] by (auto simp: session_known_def)

lemma update_session_resolves:
  assumes "session_known sid st" and ok
  shows "\<exists>st'. update_session ok sid f st = Some st'"
  using assms by (auto simp: update_session_def session_known_def)

lemma guarded_update_known:
  assumes "session_known sid st"
  shows "session_known sid (guarded_update ok sid st)"
proof (cases "update_session ok sid (progress_data st) st")
  case None
  with assms show ?thesis by (simp add: guarded_update_def)
next
  case (Some st')
  with update_session_known [OF Some] show ?thesis by (simp add: guarded_update_def)
qed

lemma store_record_known:
  assumes "session_known sid st"
  shows "session_known sid (store_record env sid productId p st)"
  using assms
  by (cases "js_or (getp p ''title'') (JStr [])")
     (simp_all add: store_record_def session_known_def)

lemma record_success_known:
  assumes "session_known sid st"
  shows "session_known sid (record_success env sid productId p st)"
proof -
  have "session_known sid (st\<lparr>importedCount := importedCount st + 1\<rparr>)"
    using assms by (simp add: session_known_def)
  then have "session_known sid
      (store_record env sid productId p
         (guarded_update (progress_update_ok env) sid (st\<lparr>importedCount := importedCount st + 1\<rparr>)))"
    by (intro store_record_known guarded_update_known)
  then show ?thesis
    by (simp add: record_success_def Let_def session_known_def)
qed

lemma try_body_known:
  assumes "session_known sid st"
  shows "case try_body env sid markupConfig importConfig productData st of
           Inl (m, st') \<Rightarrow> st' = st
         | Inr st' \<Rightarrow> session_known sid st'"
proof (cases "try_body env sid markupConfig importConfig productData st")
  case (Inl a)
  with try_body_step [where env = env and sid = sid and markupConfig = markupConfig
      and importConfig = importConfig and productData = productData and st = st]
  show ?thesis by (cases a) simp
next
  case (Inr st')
  have k: "session_known sid st'"
  proof (cases "applyMarkupRules productData markupConfig")
    case (Inl e)
    with Inr show ?thesis by (simp add: try_body_def)
  next
    case p0: (Inr p0)
    show ?thesis
    proof (cases "setp p0 ''status''
                    (JStr (if importConfig = JStr ''published'' then ''ACTIVE'' else ''DRAFT''))")
      case (Inl e)
      with p0 Inr show ?thesis by (simp add: try_body_def)
    next
      case pp: (Inr pp)
      show ?thesis
      proof (cases "product_images pp")
        case (Inl e)
        with p0 pp Inr show ?thesis by (simp add: try_body_def)
      next
        case im: (Inr imgs)
        have r: "session_known sid (record_success env sid productId pp st)" for productId
          using assms by (rule record_success_known)
        have f: "session_known sid (st\<lparr>failedCount := failedCount st + 1,
                   results := results st @ [Failed (getp pp ''title'') ''Product creation failed'']\<rparr>)"
          using assms by (simp add: session_known_def)
        from Inr p0 pp im r f show ?thesis
          by (auto simp: try_body_def create_product_def Let_def
              split: option.splits outcome.splits if_splits sum.splits)
      qed
    qed
  qed
  with Inr show ?thesis by simp
qed

lemma iteration_resolves:
  assumes "session_known sid st" and "\<not> nullish productData"
    and "head_update_ok env" and "catch_update_ok env"
  shows "\<exists>st'. iteration env sid markupConfig importConfig n productData st = Inr st'
               \<and> session_known sid st'"
proof -
  from update_session_resolves [OF assms(1,3)] obtain st1 where
    head: "update_session (head_update_ok env) sid
             (\<lambda>s. (progress_data st s)\<lparr>totalProducts := n\<rparr>) st = Some st1"
    by blast
  have k1: "session_known sid st1" using head by (rule update_session_known)
  show ?thesis
  proof (cases "try_body env sid markupConfig importConfig productData st1")
    case (Inr st2)
    with try_body_known [OF k1, where env = env and markupConfig = markupConfig
        and importConfig = importConfig and productData = productData]
    have "session_known sid st2" by simp
    with assms(2) head Inr show ?thesis by (simp add: iteration_def)
  next
    case (Inl a)
    obtain m st2 where a: "a = (m, st2)" by (cases a)
    with Inl try_body_known [OF k1, where env = env and markupConfig = markupConfig
        and importConfig = importConfig and productData = productData]
    have st2: "st2 = st1" by simp
    let ?st3 = "st1\<lparr>failedCount := failedCount st1 + 1\<rparr>"
    have "session_known sid ?st3" using k1 by (simp add: session_known_def)
    from update_session_resolves [OF this assms(4)] obtain st4 where
      c: "update_session (catch_update_ok env) sid (progress_data ?st3) ?st3 = Some st4"
      by blast
    from update_session_known [OF c] have "session_known sid st4" .
    then have "session_known sid (st4\<lparr>results := results st4 @
        [Failed (getp productData ''title'') (if m \<noteq> [] then m else ''Unknown error'')]\<rparr>)"
      by (simp add: session_known_def)
    with assms(2) head Inl a st2 c show ?thesis by (simp add: iteration_def)
  qed
qed

lemma import_loop_resolves:
  assumes "session_known sid st" and "list_all (\<lambda>p. \<not> nullish p) ps"
    and "\<And>j. head_update_ok (envs j) \<and> catch_update_ok (envs j)"
  shows "\<exists>st'. import_loop envs sid markupConfig importConfig n i ps st = Inr st'
               \<and> session_known sid st'"
  using assms(1,2)
proof (induction ps arbitrary: i st)
  case Nil
  then show ?case by simp
next
  case (Cons p ps)
  from Cons.prems have "\<not> nullish p" and rest: "list_all (\<lambda>p. \<not> nullish p) ps" by simp_all
  from iteration_resolves [OF Cons.prems(1) this(1), where env = "envs i"
      and markupConfig = markupConfig and importConfig = importConfig and n = n] assms(3)
  obtain st1 where
    it: "iteration (envs i) sid markupConfig importConfig n p st = Inr st1" and
    k1: "session_known sid st1"
    by blast
  from Cons.IH [OF k1 rest, where i = "Suc i"] it show ?case by simp
qed

lemma run_reaches_response:
  assumes "map_of (sessions d) sid \<noteq> None" and "list_all (\<lambda>p. \<not> nullish p) ps"
    and "\<And>j. head_update_ok (envs j) \<and> catch_update_ok (envs j)" and final_update_ok
  shows "\<exists>st. bulkCreateProducts envs final_update_ok t sid markupConfig importConfig ps d = Inr st"
proof -
  have "session_known sid (initial_state d)"
    using assms(1) by (simp add: session_known_def initial_state_def)
  from import_loop_resolves [OF this assms(2), where envs = envs and markupConfig = markupConfig
      and importConfig = importConfig and n = "length ps" and i = 0] assms(3)
  obtain st0 where
    loop: "import_loop envs sid markupConfig importConfig (length ps) 0 ps (initial_state d)
             = Inr st0" and
    k: "session_known sid st0"
    by blast
  from update_session_resolves [OF k assms(4)] obtain st where
    "update_session final_update_ok sid (final_data t st0) st0 = Some st"
    by blast
  with loop show ?thesis by (simp add: bulkCreateProducts_def)
qed

lemma writes_ok_not_finalized:
  assumes "writes_ok st"
  shows "filter finalized (session_writes st) = []"
  using assms
  by (auto simp: writes_ok_def below_counters_def finalized_def list_all_iff filter_empty_conv)

lemma final_update_writes:
  assumes "writes_ok st" and "update_session ok sid (final_data t st) st = Some st'"
  shows "sorted_wrt counts_le (session_writes st')
         \<and> length (filter finalized (session_writes st')) = 1
         \<and> session_writes st' \<noteq> [] \<and> finalized (last (session_writes st'))"
proof -
  from update_session_Some [OF assms(2)] obtain s where
    w: "session_writes st' = session_writes st @ [final_data t st s]"
    by blast
  have f: "finalized (final_data t st s)"
    by (simp add: finalized_def final_data_def)
  have "\<forall>x \<in> set (session_writes st). counts_le x (final_data t st s)"
    using assms(1)
    by (auto simp: writes_ok_def below_counters_def counts_le_def final_data_def list_all_iff)
  with assms(1) have "sorted_wrt counts_le (session_writes st')"
    by (simp add: w sorted_wrt_append writes_ok_def)
  with f writes_ok_not_finalized [OF assms(1)] show ?thesis
    by (simp add: w)
qed

lemma bulk_loop_result:
  "case import_loop envs sid markupConfig importConfig n 0 ps (initial_state d) of
     Inl (m, st') \<Rightarrow> writes_ok st'
   | Inr st' \<Rightarrow> writes_ok st'
       \<and> importedCount st' + failedCount st' = length ps
       \<and> length (results st') = length ps"
  using import_loop_step [where envs = envs and sid = sid and markupConfig = markupConfig
      and importConfig = importConfig and n = n and i = 0 and ps = ps and st = "initial_state d"]
    writes_ok_initial [of d]
  by (auto simp: initial_state_def split: sum.splits)

text \<open>
  Claim C4, as stated, fails in its second half: the final session update is awaited
  outside every guard, and so are the updates at the head of a turn and in the \<open>catch\<close>
  block.  With two products that are both imported and a final update that the store
  rejects, the four updates written are monotone, none of them finalizes, the stored
  session stays at \<open>processing\<close> without \<open>completedAt\<close>, and the run ends in the outer
  \<open>catch\<close>.
\<close>

theorem session_never_finalized:
  "map_sum (\<lambda>(m, st). (m, importedCount st, failedCount st,
              map (\<lambda>w. (importedProducts w, failedProducts w, status w, completedAt w))
                (session_writes st),
              length (filter finalized (session_writes st)),
              map (\<lambda>(k, s). (k, status s, completedAt s)) (sessions (db st)))) (\<lambda>st. ())
     (bulkCreateProducts (\<lambda>i. env_ok) False 9 ''s1'' (JObj []) (JStr ''draft'') two_products
        db_running)
   = Inl (''session update rejected'', 2, 0,
          [(0, 0, ''processing'', None), (1, 0, ''processing'', None),
           (1, 0, ''processing'', None), (2, 0, ''processing'', None)],
          0, [(''s1'', ''processing'', None)])"
  by code_simp

text \<open>
  Claim C4, amended: in every import run the session updates that are persisted, taken
  in the order written, never lower \<open>importedProducts\<close> or \<open>failedProducts\<close>, and at
  most one of them finalizes the session (status \<open>completed\<close>, \<open>completedAt\<close> stamped).
  A run that gets through the batch loop and its final update, and answers with the
  success response (\<open>Inr\<close>), has exactly one finalizing update, and it is the last one
  written; a run that a throw outside the per-item \<open>try\<close> cuts short (\<open>Inl\<close>: a null
  product, or a rejected session update at the head of a turn, in the \<open>catch\<close> block or
  after the loop) has none.
\<close>

theorem session_updates_monotone_finalized_once:
  "(case bulkCreateProducts envs final_update_ok t sid markupConfig importConfig ps d of
      Inl (m, st) \<Rightarrow>
        sorted_wrt counts_le (session_writes st) \<and> filter finalized (session_writes st) = []
    | Inr st \<Rightarrow>
        sorted_wrt counts_le (session_writes st)
        \<and> length (filter finalized (session_writes st)) = 1
        \<and> session_writes st \<noteq> [] \<and> finalized (last (session_writes st)))"
proof (cases "import_loop envs sid markupConfig importConfig (length ps) 0 ps (initial_state d)")
  case (Inl a)
  obtain m st where a: "a = (m, st)" by (cases a)
  with Inl bulk_loop_result [where envs = envs and sid = sid and markupConfig = markupConfig
      and importConfig = importConfig and n = "length ps" and ps = ps and d = d]
  have ok: "writes_ok st" by simp
  then have "sorted_wrt counts_le (session_writes st)" by (simp add: writes_ok_def)
  with writes_ok_not_finalized [OF ok] Inl a show ?thesis
    by (simp add: bulkCreateProducts_def)
next
  case (Inr st)
  with bulk_loop_result [where envs = envs and sid = sid and markupConfig = markupConfig
      and importConfig = importConfig and n = "length ps" and ps = ps and d = d]
  have ok: "writes_ok st" by simp
  show ?thesis
  proof (cases "update_session final_update_ok sid (final_data t st) st")
    case None
    from ok have "sorted_wrt counts_le (session_writes st)" by (simp add: writes_ok_def)
    with writes_ok_not_finalized [OF ok] Inr None show ?thesis
      by (simp add: bulkCreateProducts_def)
  next
    case (Some st')
    with final_update_writes [OF ok Some] Inr show ?thesis
      by (simp add: bulkCreateProducts_def)
  qed
qed

theorem session_updates_monotone_finalized_once_witness:
  "map_sum (\<lambda>_. ()) (\<lambda>st. map (\<lambda>w. (importedProducts w, failedProducts w, status w,
                                       completedAt w)) (session_writes st))
     (bulkCreateProducts (\<lambda>i. env_ok) True 9 ''s1'' (JObj []) (JStr ''draft'') two_products
        db_running)
   = Inr [(0, 0, ''processing'', None), (1, 0, ''processing'', None),
          (1, 0, ''processing'', None), (2, 0, ''processing'', None),
          (2, 0, ''completed'', Some 9)]
   \<and> (case bulkCreateProducts (\<lambda>i. env_ok) True 9 ''s1'' (JObj []) (JStr ''draft'') two_products
             db_running of
         Inl _ \<Rightarrow> False
       | Inr st \<Rightarrow> sorted_wrt counts_le (session_writes st)
                  \<and> length (filter finalized (session_writes st)) = 1)"
proof -
  let ?run = "bulkCreateProducts (\<lambda>i. env_ok) True 9 ''s1'' (JObj []) (JStr ''draft'')
                two_products db_running"
  have ev: "map_sum (\<lambda>_. ()) (\<lambda>st. map (\<lambda>w. (importedProducts w, failedProducts w, status w,
                                       completedAt w)) (session_writes st)) ?run
            = Inr [(0, 0, ''processing'', None), (1, 0, ''processing'', None),
                   (1, 0, ''processing'', None), (2, 0, ''processing'', None),
                   (2, 0, ''completed'', Some 9)]"
    by code_simp
  then obtain st where st: "?run = Inr st" by (cases ?run) auto
  from session_updates_monotone_finalized_once
         [of "\<lambda>i. env_ok" True 9 "''s1''" "JObj []" "JStr ''draft''" two_products db_running]
       st ev
  show ?thesis by simp
qed



text \<open>
  Claim C5 at the failing input: two products; the create call for the first one throws,
  and the session update that the \<open>catch\<close> block awaits rejects.  \<open>failedCount\<close> has been
  raised, but no error entry is pushed, the second product is never taken up (one session
  update was written in all), and the run ends in the outer \<open>catch\<close>.  The same happens,
  without any failing product, when the session update at the head of a turn rejects.
\<close>

theorem batch_aborted_by_rejected_update:
  "map_sum (\<lambda>(m, st). (m, importedCount st, failedCount st, results st,
                        length (session_writes st))) (\<lambda>st. ())
     (bulkCreateProducts (\<lambda>i. if i = 0 then env_create_throws else env_ok)
        True 9 ''s1'' (JObj []) (JStr ''draft'') two_products db_running)
   = Inl (''session update rejected'', 0, 1, [], 1)
   \<and> map_sum (\<lambda>(m, st). (m, importedCount st, failedCount st, length (results st))) (\<lambda>st. ())
     (bulkCreateProducts (\<lambda>i. if i = 0 then env_ok else env_ok\<lparr>head_update_ok := False\<rparr>)
        True 9 ''s1'' (JObj []) (JStr ''draft'') two_products db_running)
   = Inl (''session update rejected'', 1, 0, 1)"
  by code_simp

end
